theory Spec2Isabelle
  imports Complex_Main "HOL-Library.Product_Lexorder"
begin

section \<open>Python numerics\<close>

text \<open>
  The program computes with Python floats. In the coordinate conversions and in the
  search they are modelled as real numbers: every decimal literal stands for the rational
  it denotes and every operation is exact. Python's \<^verbatim>\<open>round(x)\<close> rounds to the nearest
  integer and sends a tie to the even neighbour; \<^verbatim>\<open>round(x, n)\<close> does the same at the
  \<open>n\<close>-th decimal digit; \<^verbatim>\<open>x % m\<close> for a positive \<open>m\<close> is, without rounding, the
  remainder of floored division.
\<close>

definition py_round :: "real \<Rightarrow> int" where
  "py_round x =
     (let f = \<lfloor>x\<rfloor>; d = x - of_int f
      in if d < 1 / 2 then f
         else if 1 / 2 < d then f + 1
         else if even f then f else f + 1)"

definition py_round_ndigits :: "real \<Rightarrow> nat \<Rightarrow> real" where
  "py_round_ndigits x n = of_int (py_round (x * 10 ^ n)) / 10 ^ n"

definition py_fmod :: "real \<Rightarrow> real \<Rightarrow> real" where
  "py_fmod x m = x - m * of_int \<lfloor>x / m\<rfloor>"

subsection \<open>Double precision\<close>

text \<open>
  The alignment test and the alignment discount are also modelled with the rounding of
  the float operations. A Python float is an IEEE 754 binary64 number and each
  operation returns the exact result rounded to the nearest number with a significand of
  53 bits, a tie going to the even significand. \<open>to_double\<close> is that rounding: \<open>e\<close> is
  the binary exponent of \<open>x\<close> and \<open>ulp\<close> the spacing of the doubles between \<open>2 ^ e\<close> and
  \<open>2 ^ (e + 1)\<close>. The exponent is not bounded here: overflow, subnormal numbers,
  infinities and NaN are outside the model. A float literal denotes the double nearest
  to it, and an integer operand is converted to a double first.
\<close>

definition to_double :: "real \<Rightarrow> real" where
  "to_double x =
     (if x = 0 then 0
      else let e = \<lfloor>log 2 \<bar>x\<bar>\<rfloor>; ulp = 2 powr (of_int e - 52)
           in of_int (py_round (x / ulp)) * ulp)"

definition fadd :: "real \<Rightarrow> real \<Rightarrow> real" where
  "fadd a b = to_double (a + b)"

definition fsub :: "real \<Rightarrow> real \<Rightarrow> real" where
  "fsub a b = to_double (a - b)"

definition fmul :: "real \<Rightarrow> real \<Rightarrow> real" where
  "fmul a b = to_double (a * b)"

text \<open>
  The float remainder \<^verbatim>\<open>x % m\<close> of CPython (\<^verbatim>\<open>float_rem\<close>) takes the remainder of C's
  \<^verbatim>\<open>fmod\<close>, which has the sign of \<open>x\<close> and is exact, and adds \<open>m\<close> to it, with rounding,
  when it is not zero and its sign differs from the sign of \<open>m\<close>.
\<close>

definition c_fmod :: "real \<Rightarrow> real \<Rightarrow> real" where
  "c_fmod x m = x - m * of_int (if 0 \<le> x / m then \<lfloor>x / m\<rfloor> else \<lceil>x / m\<rceil>)"

definition py_float_mod :: "real \<Rightarrow> real \<Rightarrow> real" where
  "py_float_mod x m =
     (let r = c_fmod x m
      in if r \<noteq> 0 \<and> (m < 0) \<noteq> (r < 0) then fadd r m else r)"

section \<open>CoordConv.py\<close>

definition NORTHERNMOST_LATITUDE :: real where "NORTHERNMOST_LATITUDE = 37.1"
definition NORTHERNMOST_GRID_Y :: int where "NORTHERNMOST_GRID_Y = 9"
definition SOUTHERNMOST_LATITUDE :: real where "SOUTHERNMOST_LATITUDE = 8.1"
definition SOUTHERNMOST_GRID_Y :: int where "SOUTHERNMOST_GRID_Y = 135"

definition WESTERNMOST_LONGITUDE :: real where "WESTERNMOST_LONGITUDE = 68.1167"
definition EASTERNMOST_LONGITUDE :: real where "EASTERNMOST_LONGITUDE = 97.4167"
definition WESTERNMOST_GRID_X :: int where "WESTERNMOST_GRID_X = 16"
definition EASTERNMOST_GRID_X :: int where "EASTERNMOST_GRID_X = 121"

definition latitude_per_cell :: real where
  "latitude_per_cell =
     (NORTHERNMOST_LATITUDE - SOUTHERNMOST_LATITUDE)
       / of_int (NORTHERNMOST_GRID_Y - SOUTHERNMOST_GRID_Y)"

definition longitude_per_cell :: real where
  "longitude_per_cell =
     (EASTERNMOST_LONGITUDE - WESTERNMOST_LONGITUDE)
       / of_int (EASTERNMOST_GRID_X - WESTERNMOST_GRID_X)"

definition grid_to_latitude :: "int \<Rightarrow> real" where
  "grid_to_latitude grid_y =
     (let latitude = NORTHERNMOST_LATITUDE
                       + of_int (grid_y - NORTHERNMOST_GRID_Y) * latitude_per_cell;
          latitude = of_int (py_round (latitude / 0.250)) * 0.250
      in py_round_ndigits latitude 3)"

definition grid_to_longitude :: "int \<Rightarrow> real" where
  "grid_to_longitude grid_x =
     (let longitude = WESTERNMOST_LONGITUDE
                        + of_int (grid_x - WESTERNMOST_GRID_X) * longitude_per_cell;
          longitude = of_int (py_round ((longitude - 0.125) / 0.250)) * 0.250 + 0.125
      in py_round_ndigits longitude 3)"

text \<open>The two converters to grid indices print a warning when they clamp; the warning
  is not part of the returned value and is left out.\<close>

definition latitude_to_grid :: "real \<Rightarrow> int" where
  "latitude_to_grid latitude0 =
     (let latitude = (if latitude0 > NORTHERNMOST_LATITUDE then NORTHERNMOST_LATITUDE
                      else if latitude0 < SOUTHERNMOST_LATITUDE then SOUTHERNMOST_LATITUDE
                      else latitude0);
          grid_y = of_int NORTHERNMOST_GRID_Y
                     + (latitude - NORTHERNMOST_LATITUDE) / latitude_per_cell;
          grid_y = py_round grid_y
      in max NORTHERNMOST_GRID_Y (min grid_y SOUTHERNMOST_GRID_Y))"

definition longitude_to_grid :: "real \<Rightarrow> int" where
  "longitude_to_grid longitude0 =
     (let longitude = (if longitude0 < WESTERNMOST_LONGITUDE then WESTERNMOST_LONGITUDE
                       else if longitude0 > EASTERNMOST_LONGITUDE then EASTERNMOST_LONGITUDE
                       else longitude0);
          grid_x = of_int WESTERNMOST_GRID_X
                     + (longitude - WESTERNMOST_LONGITUDE) / longitude_per_cell;
          grid_x = py_round grid_x
      in max WESTERNMOST_GRID_X (min grid_x EASTERNMOST_GRID_X))"

definition round_latitude :: "real \<Rightarrow> real" where
  "round_latitude latitude =
     py_round_ndigits (of_int (py_round (latitude / 0.250)) * 0.250) 3"

definition round_longitude :: "real \<Rightarrow> real" where
  "round_longitude longitude =
     py_round_ndigits (of_int (py_round ((longitude - 0.125) / 0.250)) * 0.250 + 0.125) 3"

definition is_within_grid_bounds :: "real \<Rightarrow> real \<Rightarrow> bool" where
  "is_within_grid_bounds longitude latitude =
     (WESTERNMOST_LONGITUDE \<le> longitude \<and> longitude \<le> EASTERNMOST_LONGITUDE \<and>
      SOUTHERNMOST_LATITUDE \<le> latitude \<and> latitude \<le> NORTHERNMOST_LATITUDE)"


section \<open>ActualMain.py: configuration and external collaborators\<close>

type_synonym cell = "int \<times> int"
type_synonym colour = "int \<times> int \<times> int"

definition GRID_SIZE :: int where "GRID_SIZE = 4"
definition GRID_WIDTH :: int where "GRID_WIDTH = 550"
definition GRID_HEIGHT :: int where "GRID_HEIGHT = 600"
definition MAP_POSITION :: "int \<times> int" where "MAP_POSITION = (100, 70)"
definition BLACK :: colour where "BLACK = (0, 0, 0)"

text \<open>
  The modules \<^verbatim>\<open>uielements\<close>, \<^verbatim>\<open>storage\<close>, \<^verbatim>\<open>depthCells\<close>, \<^verbatim>\<open>WindRetriever\<close>,
  \<^verbatim>\<open>currentDirRetriever\<close> and \<^verbatim>\<open>heuristicRetriever\<close> and the pygame display are not
  part of the sources. What the pathfinding code reads from them is a parameter of the
  model: the display surface with its size, the list \<^verbatim>\<open>storage.Backup_black_cells\<close>,
  the four data providers, and the three flags of \<^verbatim>\<open>uielements.horizontal_buttons\<close>
  (fuel, speed, comfort, in this order).
\<close>

record env =
  screen_width :: int
  screen_height :: int
  get_at :: "int \<times> int \<Rightarrow> colour"
  blocks :: "cell set"
  retrieve_depth :: "int \<Rightarrow> int \<Rightarrow> real"
  retrieve_wind_direction :: "real \<Rightarrow> real \<Rightarrow> real"
  retrieve_angle :: "real \<Rightarrow> real \<Rightarrow> real"
  get_heuristic_value :: "real \<Rightarrow> real \<Rightarrow> real"
  horizontal_buttons :: "bool \<times> bool \<times> bool"

text \<open>The four module-level dictionaries, keyed by grid cell.\<close>

record caches =
  wind_cache :: "cell \<rightharpoonup> real"
  current_cache :: "cell \<rightharpoonup> real"
  heuristic_cache :: "cell \<rightharpoonup> real"
  depth_cache :: "cell \<rightharpoonup> real"

section \<open>Alignment with wind and current\<close>

definition atan2 :: "real \<Rightarrow> real \<Rightarrow> real" where
  "atan2 y x =
     (if 0 < x then arctan (y / x)
      else if x < 0 then (if 0 \<le> y then arctan (y / x) + pi else arctan (y / x) - pi)
      else if 0 < y then pi / 2
      else if y < 0 then - (pi / 2)
      else 0)"

definition degrees :: "real \<Rightarrow> real" where
  "degrees r = r * (180 / pi)"

definition movement_angle :: "int \<Rightarrow> int \<Rightarrow> int" where
  "movement_angle dx dy = py_round (degrees (atan2 (of_int dy) (of_int dx))) mod 360"

text \<open>
  The test on the two bounds is written out twice in the source, once in
  \<^verbatim>\<open>is_aligned_with_wind\<close> and once in \<^verbatim>\<open>is_aligned_with_current\<close>, with the same
  text; it is one definition here. The direction is a float, so the two bounds are
  computed in double precision; the movement angle is an integer, and Python compares an
  integer with a float without rounding.
\<close>

definition direction_test :: "real \<Rightarrow> int \<Rightarrow> int" where
  "direction_test direction angle =
     (let lower_bound = py_float_mod (fsub direction 25) 360;
          upper_bound = py_float_mod (fadd direction 25) 360
      in if (lower_bound \<le> of_int angle \<and> of_int angle \<le> upper_bound) \<or>
            (lower_bound > upper_bound \<and>
              (of_int angle \<ge> lower_bound \<or> of_int angle \<le> upper_bound))
         then 1 else 0)"

definition is_aligned_with_wind ::
  "env \<Rightarrow> caches \<Rightarrow> int \<Rightarrow> int \<Rightarrow> int \<Rightarrow> int \<Rightarrow> int \<times> caches" where
  "is_aligned_with_wind E c long lat dx dy =
     (let cache_key = (long, lat);
          (wind_direction, c) =
            (case wind_cache c cache_key of
               Some d \<Rightarrow> (d, c)
             | None \<Rightarrow>
                 let geo_latitude = round_latitude (grid_to_latitude lat);
                     geo_longitude = round_longitude (grid_to_longitude long);
                     d = retrieve_wind_direction E geo_longitude geo_latitude
                 in (d, c\<lparr>wind_cache := (wind_cache c)(cache_key \<mapsto> d)\<rparr>))
      in (direction_test wind_direction (movement_angle dx dy), c))"

definition is_aligned_with_current ::
  "env \<Rightarrow> caches \<Rightarrow> int \<Rightarrow> int \<Rightarrow> int \<Rightarrow> int \<Rightarrow> int \<times> caches" where
  "is_aligned_with_current E c long lat dx dy =
     (let cache_key = (long, lat);
          (current_direction, c) =
            (case current_cache c cache_key of
               Some d \<Rightarrow> (d, c)
             | None \<Rightarrow>
                 let geo_latitude = round_latitude (grid_to_latitude lat);
                     geo_longitude = round_longitude (grid_to_longitude long);
                     d = retrieve_angle E geo_longitude geo_latitude
                 in (d, c\<lparr>current_cache := (current_cache c)(cache_key \<mapsto> d)\<rparr>))
      in (direction_test current_direction (movement_angle dx dy), c))"

text \<open>
  The specification's reading of "within 25 degrees, with wraparound": some full turn
  brings the movement angle within 25 of the sampled direction; \<open>within_tolerance\<close> is the
  same with another tolerance. Its second reading, "the union of the two wrapped
  sub-ranges", is the test of the source on bounds that are not rounded.
\<close>

definition within_25_degrees :: "real \<Rightarrow> int \<Rightarrow> bool" where
  "within_25_degrees direction angle =
     (\<exists>k::int. \<bar>of_int angle - direction + 360 * of_int k\<bar> \<le> 25)"

definition within_tolerance :: "real \<Rightarrow> real \<Rightarrow> int \<Rightarrow> bool" where
  "within_tolerance t direction angle =
     (\<exists>k::int. \<bar>of_int angle - direction + 360 * of_int k\<bar> \<le> t)"

definition union_of_wrapped_ranges :: "real \<Rightarrow> int \<Rightarrow> bool" where
  "union_of_wrapped_ranges direction angle =
     (let lower_bound = py_fmod (direction - 25) 360;
          upper_bound = py_fmod (direction + 25) 360
      in (lower_bound \<le> of_int angle \<and> of_int angle \<le> upper_bound) \<or>
         (lower_bound > upper_bound \<and>
           (of_int angle \<ge> lower_bound \<or> of_int angle \<le> upper_bound)))"

text \<open>
  A direction for which the source computes both bounds without rounding: at most 4096
  in magnitude and with at most 40 binary digits after the point (whole degrees, halves,
  quarters and so on).
\<close>

definition short_bearing :: "real \<Rightarrow> bool" where
  "short_bearing d = (\<bar>d\<bar> \<le> 4096 \<and> d * 2 ^ 40 = of_int \<lfloor>d * 2 ^ 40\<rfloor>)"

section \<open>Cost model\<close>

definition euclidean :: "cell \<Rightarrow> cell \<Rightarrow> real" where
  "euclidean a b = sqrt (of_int ((fst a - fst b) ^ 2 + (snd a - snd b) ^ 2))"

definition h_heuristic :: "env \<Rightarrow> caches \<Rightarrow> cell \<Rightarrow> real \<times> caches" where
  "h_heuristic E c node =
     (case heuristic_cache c node of
        Some v \<Rightarrow> (v, c)
      | None \<Rightarrow>
          let (grid_x, grid_y) = node;
              latitude = round_latitude (grid_to_latitude grid_y);
              longitude = round_longitude (grid_to_longitude grid_x);
              heuristic_value = get_heuristic_value E latitude longitude
          in (heuristic_value, c\<lparr>heuristic_cache := (heuristic_cache c)(node \<mapsto> heuristic_value)\<rparr>))"

text \<open>
  \<^verbatim>\<open>calculate_fscore\<close> calls \<^verbatim>\<open>h_heuristic(neighbor)\<close> in every branch but the last;
  the call fills the heuristic cache. The model binds the looked-up value and the
  filled cache once (\<open>h\<close>, \<open>c_h\<close>) and returns the untouched cache in the last branch.
\<close>

definition calculate_fscore ::
  "env \<Rightarrow> caches \<Rightarrow> real \<Rightarrow> cell \<Rightarrow> cell \<Rightarrow> cell \<Rightarrow> bool \<Rightarrow> bool \<Rightarrow> int \<Rightarrow> int
     \<Rightarrow> real \<times> caches" where
  "calculate_fscore E c g current neighbor goal is_first_box_green is_second_box_green
       wind_alignment current_alignment =
     (let (b0, b1, b2) = horizontal_buttons E;
          d = euclidean neighbor goal;
          (h, c_h) = h_heuristic E c neighbor;
          (f, c') =
            (if is_first_box_green then
               (if b0 then (0.4 * g + 0.2 * d + 0.1 * h, c_h)
                else if b1 then (0.3 * g + 0.7 * d + 0.1 * h, c_h)
                else if b2 then (0.3 * g + 0.2 * d + 1 * h, c_h)
                else (0.3 * g + 0.7 * d + 0.1 * h, c_h))
             else if is_second_box_green then
               (if b0 then (0.4 * g + 0.2 * d + 0.1 * h, c_h)
                else if b1 then (0.3 * g + 0.7 * d + 0.1 * h, c_h)
                else if b2 then (0.3 * g + 0.2 * d + 1 * h, c_h)
                else (0.3 * g + 0.2 * d + 1 * h, c_h))
             else
               (if b0 then (0.4 * g + 0.2 * d + 0.1 * h, c_h)
                else if b1 then (0.3 * g + 0.7 * d + 0.1 * h, c_h)
                else if b2 then (0.3 * g + 0.2 * d + 1 * h, c_h)
                else (g + d, c)));
          f = (if wind_alignment = 1 then f * 0.9 else f);
          f = (if current_alignment = 1 then f * 0.9 else f)
      in (f, c'))"

text \<open>
  The same function with the rounding of every float operation: \<^verbatim>\<open>math.sqrt\<close> converts
  its integer argument to a double and rounds the root, a sum of three terms is added
  from the left, and \<^verbatim>\<open>f_score *= 0.9\<close> is one rounded multiplication by the double
  nearest to 0.9. \<open>blend a b k\<close> is \<^verbatim>\<open>a * g_score + b * euclidean(neighbor, end) + k * h_heuristic(neighbor)\<close>.
\<close>

definition euclidean_double :: "cell \<Rightarrow> cell \<Rightarrow> real" where
  "euclidean_double a b =
     to_double (sqrt (to_double (of_int ((fst a - fst b) ^ 2 + (snd a - snd b) ^ 2))))"

definition blend :: "real \<Rightarrow> real \<Rightarrow> real \<Rightarrow> real \<Rightarrow> real \<Rightarrow> real \<Rightarrow> real" where
  "blend a b k g d h =
     fadd (fadd (fmul (to_double a) g) (fmul (to_double b) d)) (fmul (to_double k) h)"

definition calculate_fscore_double ::
  "env \<Rightarrow> caches \<Rightarrow> real \<Rightarrow> cell \<Rightarrow> cell \<Rightarrow> cell \<Rightarrow> bool \<Rightarrow> bool \<Rightarrow> int \<Rightarrow> int
     \<Rightarrow> real \<times> caches" where
  "calculate_fscore_double E c g current neighbor goal is_first_box_green is_second_box_green
       wind_alignment current_alignment =
     (let (b0, b1, b2) = horizontal_buttons E;
          d = euclidean_double neighbor goal;
          (h, c_h) = h_heuristic E c neighbor;
          (f, c') =
            (if is_first_box_green then
               (if b0 then (blend 0.4 0.2 0.1 g d h, c_h)
                else if b1 then (blend 0.3 0.7 0.1 g d h, c_h)
                else if b2 then (blend 0.3 0.2 1 g d h, c_h)
                else (blend 0.3 0.7 0.1 g d h, c_h))
             else if is_second_box_green then
               (if b0 then (blend 0.4 0.2 0.1 g d h, c_h)
                else if b1 then (blend 0.3 0.7 0.1 g d h, c_h)
                else if b2 then (blend 0.3 0.2 1 g d h, c_h)
                else (blend 0.3 0.2 1 g d h, c_h))
             else
               (if b0 then (blend 0.4 0.2 0.1 g d h, c_h)
                else if b1 then (blend 0.3 0.7 0.1 g d h, c_h)
                else if b2 then (blend 0.3 0.2 1 g d h, c_h)
                else (fadd g d, c)));
          f = (if wind_alignment = 1 then fmul f (to_double 0.9) else f);
          f = (if current_alignment = 1 then fmul f (to_double 0.9) else f)
      in (f, c'))"

section \<open>Neighbours\<close>

definition is_black_pixel :: "env \<Rightarrow> int \<Rightarrow> int \<Rightarrow> bool" where
  "is_black_pixel E x y =
     (let pixel_x = fst MAP_POSITION + x * GRID_SIZE + GRID_SIZE div 2;
          pixel_y = snd MAP_POSITION + y * GRID_SIZE + GRID_SIZE div 2
      in if 0 \<le> pixel_x \<and> pixel_x < screen_width E \<and> 0 \<le> pixel_y \<and> pixel_y < screen_height E
         then get_at E (pixel_x, pixel_y) = BLACK
         else True)"

definition directions :: "(int \<times> int) list" where
  "directions = [(0, 1), (1, 0), (0, -1), (-1, 0), (1, 1), (-1, -1), (1, -1), (-1, 1)]"

definition max_x :: int where "max_x = GRID_WIDTH div GRID_SIZE"
definition max_y :: int where "max_y = GRID_HEIGHT div GRID_SIZE"

text \<open>The condition of line 958, on a candidate cell and its cached depth.\<close>

definition navigable :: "env \<Rightarrow> real \<Rightarrow> int \<Rightarrow> int \<Rightarrow> bool" where
  "navigable E depth nx ny =
     (\<not> is_black_pixel E nx ny \<and> (nx, ny) \<notin> blocks E \<and> depth < - 48)"

text \<open>One round of the loop over the eight directions.\<close>

definition neighbor_step ::
  "env \<Rightarrow> cell \<Rightarrow> (cell \<times> int \<times> int) list \<times> caches \<Rightarrow> int \<times> int
     \<Rightarrow> (cell \<times> int \<times> int) list \<times> caches" where
  "neighbor_step E position acc dir =
     (let (neighbors, c) = acc;
          (dx, dy) = dir;
          nx = fst position + dx;
          ny = snd position + dy
      in if 0 \<le> nx \<and> nx < max_x \<and> 0 \<le> ny \<and> ny < max_y then
           let depth_key = (nx, ny);
               (depth, c) =
                 (case depth_cache c depth_key of
                    None \<Rightarrow>
                      let v = retrieve_depth E nx ny
                      in (v, c\<lparr>depth_cache := (depth_cache c)(depth_key \<mapsto> v)\<rparr>)
                  | Some v \<Rightarrow> (v, c))
           in if navigable E depth nx ny then
                let (wind_alignment, c) =
                      is_aligned_with_wind E c (fst position + dx) (snd position + dy) dx dy;
                    (current_alignment, c) =
                      is_aligned_with_current E c (fst position + dx) (snd position + dy) dx dy
                in (neighbors @ [((nx, ny), wind_alignment, current_alignment)], c)
              else (neighbors, c)
         else (neighbors, c))"

definition get_neighbors ::
  "env \<Rightarrow> caches \<Rightarrow> cell \<Rightarrow> (cell \<times> int \<times> int) list \<times> caches" where
  "get_neighbors E c position = foldl (neighbor_step E position) ([], c) directions"


section \<open>The start button and the manual input mode\<close>

text \<open>
  The handler of a click on the start button (lines 1175 to 1181) sets two flags of the
  main loop and clears caches; on the caches it does this.
\<close>

definition start_button_click :: "caches \<Rightarrow> caches" where
  "start_button_click c =
     c\<lparr>wind_cache := Map.empty, current_cache := Map.empty, heuristic_cache := Map.empty\<rparr>"

text \<open>
  The messages of \<^verbatim>\<open>validate_coordinates\<close> are formatted strings; a constructor
  stands for each message.
\<close>

datatype validation_message =
  No_message | Longitude_out_of_range | Latitude_out_of_range | Possible_swap | Outside_region

definition validate_coordinates :: "real \<Rightarrow> real \<Rightarrow> bool \<times> validation_message" where
  "validate_coordinates lon lat =
     (if \<not> (- 180 \<le> lon \<and> lon \<le> 180) then (False, Longitude_out_of_range)
      else if \<not> (- 90 \<le> lat \<and> lat \<le> 90) then (False, Latitude_out_of_range)
      else
        let valid_lon_range = (60 \<le> lon \<and> lon \<le> 100);
            valid_lat_range = (0 \<le> lat \<and> lat \<le> 40)
        in if valid_lon_range \<and> valid_lat_range then (True, No_message)
           else
             let swapped_lon_range = (60 \<le> lat \<and> lat \<le> 100);
                 swapped_lat_range = (0 \<le> lon \<and> lon \<le> 40)
             in if swapped_lon_range \<and> swapped_lat_range then (False, Possible_swap)
                else if \<not> (valid_lon_range \<and> valid_lat_range) then (False, Outside_region)
                else (True, No_message))"

text \<open>
  The manual input mode of the main loop, from the validation of the four parsed
  coordinates (line 1354) to the call of \<^verbatim>\<open>a_star\<close> (line 1411). Every
  \<^verbatim>\<open>error_display.show_error\<close> followed by \<^verbatim>\<open>continue\<close> is an \<open>Inl\<close>; \<open>Inr (start, goal)\<close>
  are the two cells \<^verbatim>\<open>a_star\<close> is called with.
\<close>

datatype shown_error =
  Start_invalid validation_message
  | End_invalid validation_message
  | Start_grid_outside_bounds
  | End_grid_outside_bounds
  | Start_on_land
  | End_on_land

definition manual_mode :: "env \<Rightarrow> real \<Rightarrow> real \<Rightarrow> real \<Rightarrow> real \<Rightarrow> shown_error + cell \<times> cell" where
  "manual_mode E start_longitude start_latitude end_longitude end_latitude =
     (let (valid, msg) = validate_coordinates start_longitude start_latitude
      in if \<not> valid then Inl (Start_invalid msg)
         else
           let (valid, msg) = validate_coordinates end_longitude end_latitude
           in if \<not> valid then Inl (End_invalid msg)
              else
                let start = (longitude_to_grid start_longitude, latitude_to_grid start_latitude);
                    goal = (longitude_to_grid end_longitude, latitude_to_grid end_latitude)
                in if \<not> (0 \<le> fst start \<and> fst start < max_x \<and> 0 \<le> snd start \<and> snd start < max_y)
                   then Inl Start_grid_outside_bounds
                   else if \<not> (0 \<le> fst goal \<and> fst goal < max_x \<and> 0 \<le> snd goal \<and> snd goal < max_y)
                   then Inl End_grid_outside_bounds
                   else if is_black_pixel E (fst start) (snd start) then Inl Start_on_land
                   else if is_black_pixel E (fst goal) (snd goal) then Inl End_on_land
                   else Inr (start, goal))"

section \<open>The search\<close>

text \<open>
  The local variables of \<^verbatim>\<open>a_star\<close>, the four caches and the two fields of the progress
  bar make the state of the loop. The open set is a \<^verbatim>\<open>PriorityQueue\<close> of triples
  (priority, insertion number, cell): \<^verbatim>\<open>put\<close> adds a triple, \<^verbatim>\<open>get\<close> removes the least
  triple in Python's lexicographic order on tuples.
\<close>

type_synonym entry = "real \<times> nat \<times> cell"

record a_state =
  open_set :: "entry list"
  counter :: nat
  came_from :: "cell \<rightharpoonup> cell"
  g_score :: "cell \<rightharpoonup> real"
  f_score :: "cell \<rightharpoonup> real"
  closed_set :: "cell set"
  explored_nodes :: "cell list"
  visualization_counter :: nat
  cache :: caches
  progress_active :: bool
  progress :: real

fun pq_min :: "entry \<Rightarrow> entry list \<Rightarrow> entry" where
  "pq_min m [] = m"
| "pq_min m (x # xs) = pq_min (if x < m then x else m) xs"

datatype py_error = KeyError

text \<open>\<^verbatim>\<open>ProgressBar.update(current, total)\<close>.\<close>

definition ProgressBar_update :: "int \<Rightarrow> int \<Rightarrow> real" where
  "ProgressBar_update current total' = (if total' > 0 then of_int current / of_int total' else 0)"

text \<open>
  One round of the loop over the neighbours of \<open>current\<close>. \<^verbatim>\<open>g_score[current]\<close> raises
  \<^verbatim>\<open>KeyError\<close> when the cell has no entry; after an error the remaining rounds do not run.
\<close>

definition relax_neighbor ::
  "env \<Rightarrow> cell \<Rightarrow> bool \<Rightarrow> bool \<Rightarrow> cell \<Rightarrow> py_error + a_state \<Rightarrow> cell \<times> int \<times> int
     \<Rightarrow> py_error + a_state" where
  "relax_neighbor E goal is_first_box_green is_second_box_green current acc nb =
     (case acc of
        Inl e \<Rightarrow> Inl e
      | Inr st \<Rightarrow>
          let (neighbor, wind_alignment, current_alignment) = nb
          in if neighbor \<in> closed_set st then Inr st
             else
               (case g_score st current of
                  None \<Rightarrow> Inl KeyError
                | Some g_current \<Rightarrow>
                    let tentative_g_score = g_current + euclidean current neighbor;
                        (tentative_f_score, c) =
                          calculate_fscore E (cache st) tentative_g_score current neighbor goal
                            is_first_box_green is_second_box_green wind_alignment current_alignment;
                        st = st\<lparr>cache := c\<rparr>
                    in if (case g_score st neighbor of
                             None \<Rightarrow> True
                           | Some g_neighbor \<Rightarrow> tentative_g_score < g_neighbor)
                       then Inr (st\<lparr>came_from := (came_from st)(neighbor \<mapsto> current),
                                    g_score := (g_score st)(neighbor \<mapsto> tentative_g_score),
                                    f_score := (f_score st)(neighbor \<mapsto> tentative_f_score),
                                    open_set := open_set st @ [(tentative_f_score, counter st, neighbor)],
                                    counter := counter st + 1\<rparr>)
                       else Inr st))"

text \<open>
  How one round of the \<^verbatim>\<open>while\<close> loop ends: with the goal popped (the path is then
  rebuilt and returned), with an exception, or ready for the next round. The loop is not
  entered when the open set is empty. The drawing of the explored cells every tenth
  round changes nothing the search reads and is left out; \<open>max_nodes\<close> is the local
  constant of that name, a parameter here so that its influence can be stated.
\<close>

datatype stop = Open_set_empty a_state | Goal_popped a_state | Raised py_error

definition a_star_step ::
  "env \<Rightarrow> cell \<Rightarrow> bool \<Rightarrow> bool \<Rightarrow> int \<Rightarrow> a_state \<Rightarrow> stop + a_state" where
  "a_star_step E goal is_first_box_green is_second_box_green max_nodes st =
     (case open_set st of
        [] \<Rightarrow> Inl (Open_set_empty st)
      | x # xs \<Rightarrow>
          let least = pq_min x xs;
              current = snd (snd least);
              st = st\<lparr>open_set := remove1 least (x # xs)\<rparr>
          in if current \<in> closed_set st then Inr st
             else
               let st = st\<lparr>closed_set := insert current (closed_set st),
                           explored_nodes := explored_nodes st @ [current]\<rparr>;
                   n = int (length (explored_nodes st));
                   st = st\<lparr>progress := ProgressBar_update n (min (n + 100) max_nodes)\<rparr>
               in if current = goal then Inl (Goal_popped st)
                  else
                    let st = st\<lparr>visualization_counter := visualization_counter st + 1\<rparr>;
                        (neighbors, c) = get_neighbors E (cache st) current;
                        st = st\<lparr>cache := c\<rparr>
                    in (case foldl (relax_neighbor E goal is_first_box_green is_second_box_green
                                      current) (Inr st) neighbors of
                          Inl e \<Rightarrow> Inl (Raised e)
                        | Inr st \<Rightarrow> Inr st))"

definition grid_cells :: "cell set" where
  "grid_cells = {0..<max_x} \<times> {0..<max_y}"

definition open_cells :: "a_state \<Rightarrow> cell set" where
  "open_cells st = (\<lambda>e. snd (snd e)) ` set (open_set st)"

subsection \<open>The loop ends\<close>

lemma pq_min_in: "pq_min m xs \<in> set (m # xs)"
  by (induction xs arbitrary: m) (auto split: if_splits)

lemma finite_grid_cells: "finite grid_cells"
  by (simp add: grid_cells_def)

lemma neighbor_step_cells:
  "fst ` set (fst (neighbor_step E p acc d)) \<subseteq> fst ` set (fst acc) \<union> grid_cells"
  by (auto simp: neighbor_step_def Let_def case_prod_beta grid_cells_def split: option.splits)

lemma foldl_neighbor_step_cells:
  "fst ` set (fst (foldl (neighbor_step E p) acc ds)) \<subseteq> fst ` set (fst acc) \<union> grid_cells"
proof (induction ds arbitrary: acc)
  case Nil
  then show ?case by simp
next
  case (Cons d ds)
  show ?case
    using Cons [of "neighbor_step E p acc d"] neighbor_step_cells [of E p acc d]
    by auto
qed

lemma get_neighbors_in_grid: "fst ` set (fst (get_neighbors E c p)) \<subseteq> grid_cells"
  using foldl_neighbor_step_cells [of E p "([], c)" directions]
  by (simp add: get_neighbors_def)

lemma foldl_relax_Inl: "foldl (relax_neighbor E goal fb sb cur) (Inl e) nbs = Inl e"
  by (induction nbs) (simp_all add: relax_neighbor_def)

lemma relax_neighbor_frame:
  assumes "relax_neighbor E goal fb sb cur (Inr st) nb = Inr st'"
  shows "closed_set st' = closed_set st \<and> explored_nodes st' = explored_nodes st \<and>
         open_cells st' \<subseteq> open_cells st \<union> {fst nb}"
  using assms
  by (auto simp: relax_neighbor_def Let_def case_prod_beta open_cells_def
      split: if_splits option.splits)

lemma foldl_relax_frame:
  assumes "foldl (relax_neighbor E goal fb sb cur) (Inr st) nbs = Inr st'"
  shows "closed_set st' = closed_set st \<and> explored_nodes st' = explored_nodes st \<and>
         open_cells st' \<subseteq> open_cells st \<union> fst ` set nbs"
  using assms
proof (induction nbs arbitrary: st)
  case Nil
  then show ?case by simp
next
  case (Cons nb nbs)
  show ?case
  proof (cases "relax_neighbor E goal fb sb cur (Inr st) nb")
    case (Inl e)
    then show ?thesis using Cons.prems by (simp add: foldl_relax_Inl)
  next
    case (Inr st1)
    then have "foldl (relax_neighbor E goal fb sb cur) (Inr st1) nbs = Inr st'"
      using Cons.prems by simp
    from Cons.IH [OF this] relax_neighbor_frame [OF Inr] show ?thesis by auto
  qed
qed

lemma a_star_step_Inr:
  assumes "a_star_step E goal fb sb m st = Inr st'"
  shows "(closed_set st' = closed_set st \<and> open_cells st' \<subseteq> open_cells st \<and>
          length (open_set st') < length (open_set st)) \<or>
         (\<exists>cur \<in> open_cells st. cur \<notin> closed_set st \<and>
            closed_set st' = insert cur (closed_set st) \<and>
            open_cells st' \<subseteq> open_cells st \<union> grid_cells)"
proof (cases "open_set st")
  case Nil
  then show ?thesis using assms by (simp add: a_star_step_def)
next
  case (Cons x xs)
  define least where "least = pq_min x xs"
  define cur where "cur = snd (snd least)"
  define st1 where "st1 = st\<lparr>open_set := remove1 least (x # xs)\<rparr>"
  have least_in: "least \<in> set (open_set st)"
    using pq_min_in [of x xs] by (simp add: Cons least_def)
  then have cur_in: "cur \<in> open_cells st"
    by (auto simp: open_cells_def cur_def)
  have oc1: "open_cells st1 \<subseteq> open_cells st"
    using set_remove1_subset [of least "x # xs"] by (auto simp: open_cells_def st1_def Cons)
  have len1: "length (open_set st1) < length (open_set st)"
    using least_in by (auto simp: st1_def Cons length_remove1 dest: length_pos_if_in_set)
  show ?thesis
  proof (cases "cur \<in> closed_set st")
    case True
    then have "a_star_step E goal fb sb m st = Inr st1"
      by (simp add: a_star_step_def Cons Let_def least_def cur_def st1_def)
    then have "st' = st1" using assms by simp
    then show ?thesis using oc1 len1 by (simp add: st1_def)
  next
    case False
    define st5 where "st5 =
      st1\<lparr>closed_set := insert cur (closed_set st1),
           explored_nodes := explored_nodes st1 @ [cur],
           progress := ProgressBar_update (int (length (explored_nodes st1 @ [cur])))
                        (min (int (length (explored_nodes st1 @ [cur])) + 100) m),
           visualization_counter := visualization_counter st1 + 1,
           cache := snd (get_neighbors E (cache st1) cur)\<rparr>"
    define nbs where "nbs = fst (get_neighbors E (cache st1) cur)"
    have ng: "cur \<noteq> goal"
    proof
      assume "cur = goal"
      then have "a_star_step E goal fb sb m st \<noteq> Inr st'"
        using False
        by (simp add: a_star_step_def Cons Let_def case_prod_beta least_def
            cur_def st1_def)
      then show False using assms by simp
    qed
    have unfold: "a_star_step E goal fb sb m st =
        (case foldl (relax_neighbor E goal fb sb cur) (Inr st5) nbs of
           Inl e \<Rightarrow> Inl (Raised e) | Inr s \<Rightarrow> Inr s)"
      using False ng
      by (simp add: a_star_step_def Cons Let_def case_prod_beta least_def
          cur_def st1_def st5_def nbs_def)
    have "foldl (relax_neighbor E goal fb sb cur) (Inr st5) nbs = Inr st'"
      using unfold assms by (auto split: sum.splits)
    from foldl_relax_frame [OF this]
    have "closed_set st' = closed_set st5" "open_cells st' \<subseteq> open_cells st5 \<union> fst ` set nbs"
      by simp_all
    moreover have "closed_set st5 = insert cur (closed_set st)"
      by (simp add: st5_def st1_def)
    moreover have "open_cells st5 = open_cells st1"
      by (simp add: st5_def open_cells_def)
    moreover have "fst ` set nbs \<subseteq> grid_cells"
      unfolding nbs_def by (rule get_neighbors_in_grid)
    ultimately show ?thesis using cur_in False oc1 by blast
  qed
qed

lemma a_star_step_decreases:
  assumes "a_star_step E goal fb sb m st = Inr st'"
  shows "((card ((open_cells st' \<union> grid_cells) - closed_set st'), length (open_set st')),
          (card ((open_cells st \<union> grid_cells) - closed_set st), length (open_set st)))
         \<in> less_than <*lex*> less_than"
proof -
  have fin: "finite ((open_cells st \<union> grid_cells) - closed_set st)"
    by (simp add: open_cells_def finite_grid_cells)
  from a_star_step_Inr [OF assms] show ?thesis
  proof
    assume a: "closed_set st' = closed_set st \<and> open_cells st' \<subseteq> open_cells st \<and>
          length (open_set st') < length (open_set st)"
    then have "(open_cells st' \<union> grid_cells) - closed_set st'
        \<subseteq> (open_cells st \<union> grid_cells) - closed_set st" by auto
    then have "card ((open_cells st' \<union> grid_cells) - closed_set st')
        \<le> card ((open_cells st \<union> grid_cells) - closed_set st)"
      using fin by (rule card_mono [rotated])
    then show ?thesis using a by auto
  next
    assume "\<exists>cur \<in> open_cells st. cur \<notin> closed_set st \<and>
            closed_set st' = insert cur (closed_set st) \<and>
            open_cells st' \<subseteq> open_cells st \<union> grid_cells"
    then obtain cur where c: "cur \<in> open_cells st" "cur \<notin> closed_set st"
      "closed_set st' = insert cur (closed_set st)"
      "open_cells st' \<subseteq> open_cells st \<union> grid_cells" by blast
    then have "(open_cells st' \<union> grid_cells) - closed_set st'
        \<subset> (open_cells st \<union> grid_cells) - closed_set st" by auto
    then have "card ((open_cells st' \<union> grid_cells) - closed_set st')
        < card ((open_cells st \<union> grid_cells) - closed_set st)"
      using fin by (rule psubset_card_mono [rotated])
    then show ?thesis by simp
  qed
qed

text \<open>
  The \<^verbatim>\<open>while\<close> loop. It ends: a round either only removes an entry from the open set,
  or closes a cell that was not closed; the cells that can ever be closed are those in
  the open set and those of the grid.
\<close>

function a_star_loop :: "env \<Rightarrow> cell \<Rightarrow> bool \<Rightarrow> bool \<Rightarrow> int \<Rightarrow> a_state \<Rightarrow> stop" where
  "a_star_loop E goal is_first_box_green is_second_box_green max_nodes st =
     (case a_star_step E goal is_first_box_green is_second_box_green max_nodes st of
        Inl r \<Rightarrow> r
      | Inr st' \<Rightarrow> a_star_loop E goal is_first_box_green is_second_box_green max_nodes st')"
  by pat_completeness auto
termination
proof (relation "inv_image (less_than <*lex*> less_than)
    (\<lambda>(E, goal, fb, sb, m, st).
       (card ((open_cells st \<union> grid_cells) - closed_set st), length (open_set st)))")
  show "wf (inv_image (less_than <*lex*> less_than)
    (\<lambda>(E, goal, fb, sb, m, st).
       (card ((open_cells st \<union> grid_cells) - closed_set st), length (open_set st))))"
    by (intro wf_inv_image wf_lex_prod wf_less_than)
next
  fix E goal fb sb m st st'
  assume "a_star_step E goal fb sb m st = Inr st'"
  from a_star_step_decreases [OF this]
  show "((E, goal, fb, sb, m, st'), (E, goal, fb, sb, m, st))
      \<in> inv_image (less_than <*lex*> less_than)
          (\<lambda>(E, goal, fb, sb, m, st).
             (card ((open_cells st \<union> grid_cells) - closed_set st), length (open_set st)))"
    by simp
qed

declare a_star_loop.simps [simp del]

text \<open>
  The walk along \<^verbatim>\<open>came_from\<close> that rebuilds the path, before \<^verbatim>\<open>start\<close> is appended and
  the list reversed. On a cyclic map the walk does not end; the result is then \<open>None\<close>.
\<close>

partial_function (option) reconstruct_path ::
  "(cell \<rightharpoonup> cell) \<Rightarrow> cell \<Rightarrow> cell list \<Rightarrow> cell list option" where
  "reconstruct_path cf current path =
     (case cf current of
        None \<Rightarrow> Some path
      | Some previous \<Rightarrow> reconstruct_path cf previous (path @ [current]))"

text \<open>
  \<^verbatim>\<open>a_star\<close>: the state before the loop (with \<^verbatim>\<open>progress_bar_ref.start()\<close> done), the
  loop, and what is returned. The result is \<open>None\<close> when the call does not return,
  \<open>Inl\<close> an exception, and otherwise the returned pair with the state the call leaves
  behind. The panels drawn and the delay before a found path is returned are left out.
\<close>

definition initial_state :: "caches \<Rightarrow> cell \<Rightarrow> cell \<Rightarrow> a_state" where
  "initial_state c start goal =
     \<lparr>open_set = [(0, 0, start)], counter = 1, came_from = Map.empty,
      g_score = [start \<mapsto> 0], f_score = [start \<mapsto> euclidean start goal],
      closed_set = {}, explored_nodes = [], visualization_counter = 0, cache = c,
      progress_active = True, progress = 0\<rparr>"

type_synonym a_star_return = "cell list option \<times> cell list"

definition a_star_with ::
  "int \<Rightarrow> env \<Rightarrow> caches \<Rightarrow> cell \<Rightarrow> cell \<Rightarrow> bool \<Rightarrow> bool
     \<Rightarrow> (py_error + a_star_return \<times> a_state) option" where
  "a_star_with max_nodes E c start goal cargo passenger =
     (case a_star_loop E goal cargo passenger max_nodes (initial_state c start goal) of
        Open_set_empty st \<Rightarrow>
          Some (Inr ((None, explored_nodes st), st\<lparr>progress_active := False\<rparr>))
      | Goal_popped st \<Rightarrow>
          (case reconstruct_path (came_from st) goal [] of
             None \<Rightarrow> None
           | Some path \<Rightarrow>
               Some (Inr ((Some (rev (path @ [start])), explored_nodes st),
                          st\<lparr>progress_active := False\<rparr>)))
      | Raised e \<Rightarrow> Some (Inl e))"

definition a_star ::
  "env \<Rightarrow> caches \<Rightarrow> cell \<Rightarrow> cell \<Rightarrow> bool \<Rightarrow> bool \<Rightarrow> (py_error + a_star_return \<times> a_state) option" where
  "a_star = a_star_with 10000"

section \<open>Fixtures\<close>

text \<open>An environment and a cache state for concrete runs: open water everywhere.\<close>

definition open_sea :: env where
  "open_sea =
     \<lparr>screen_width = 1920, screen_height = 1080, get_at = (\<lambda>p. (0, 0, 200)), blocks = {},
      retrieve_depth = (\<lambda>x y. - 100), retrieve_wind_direction = (\<lambda>lon lat. 10),
      retrieve_angle = (\<lambda>lon lat. 200), get_heuristic_value = (\<lambda>lat lon. 5),
      horizontal_buttons = (False, False, True)\<rparr>"

definition no_caches :: caches where
  "no_caches =
     \<lparr>wind_cache = Map.empty, current_cache = Map.empty, heuristic_cache = Map.empty,
      depth_cache = Map.empty\<rparr>"

text \<open>Caches that hold a direction of 10 degrees for the cell \<open>(20, 100)\<close>.\<close>

definition wind_from_10 :: caches where
  "wind_from_10 = no_caches\<lparr>wind_cache := [(20, 100) \<mapsto> 10], current_cache := [(20, 100) \<mapsto> 10]\<rparr>"

text \<open>The open sea with no weighting selected.\<close>

definition no_weighting :: env where
  "no_weighting = open_sea\<lparr>horizontal_buttons := (False, False, False)\<rparr>"

text \<open>
  Caches as an earlier search can leave them, a sea whose depth provider now answers 0
  everywhere, a sea whose cell \<open>(16, 9)\<close> is blocked and which is 10 deep everywhere,
  and a display that is black everywhere.
\<close>

definition after_first_search :: caches where
  "after_first_search =
     \<lparr>wind_cache = [(17, 100) \<mapsto> 10], current_cache = [(17, 100) \<mapsto> 200],
      heuristic_cache = [(17, 100) \<mapsto> 5], depth_cache = [(17, 100) \<mapsto> - 60]\<rparr>"

definition silted :: env where
  "silted = open_sea\<lparr>retrieve_depth := (\<lambda>x y. 0)\<rparr>"

definition reef :: env where
  "reef = open_sea\<lparr>blocks := {(16, 9)}, retrieve_depth := (\<lambda>x y. - 10)\<rparr>"

definition all_land :: env where
  "all_land = open_sea\<lparr>get_at := (\<lambda>p. (0, 0, 0))\<rparr>"

text \<open>A sea whose only cells outside the blocked set are \<open>(20, 100)\<close> and \<open>(21, 100)\<close>.\<close>

definition channel :: env where
  "channel = open_sea\<lparr>blocks := - {(20, 100), (21, 100)}\<rparr>"

text \<open>The open sea with the last cell of the grid blocked.\<close>

definition blocked_corner :: env where
  "blocked_corner = open_sea\<lparr>blocks := {(136, 149)}\<rparr>"

section \<open>Coordinate conversion: the round trip\<close>

subsection \<open>Rounding facts\<close>

lemma py_round_of_int: "py_round (of_int n) = n"
  by (simp add: py_round_def)

lemma py_round_near: "\<bar>real_of_int (py_round r) - r\<bar> \<le> 1 / 2"
  unfolding py_round_def Let_def by (auto; linarith)

lemma py_round_unique:
  assumes "\<bar>r - real_of_int n\<bar> < 1 / 2"
  shows "py_round r = n"
proof -
  have "\<bar>real_of_int (py_round r) - real_of_int n\<bar> < 1"
    using py_round_near [of r] assms by linarith
  then have "\<bar>real_of_int (py_round r - n)\<bar> < 1" by simp
  then have "\<bar>py_round r - n\<bar> < 1" by linarith
  then show ?thesis by simp
qed

lemma py_round_within_one:
  assumes "\<bar>r - real_of_int n\<bar> < 3 / 2"
  shows "\<bar>py_round r - n\<bar> \<le> 1"
proof -
  have "\<bar>real_of_int (py_round r) - real_of_int n\<bar> < 2"
    using py_round_near [of r] assms by linarith
  then have "\<bar>real_of_int (py_round r - n)\<bar> < 2" by simp
  then have "\<bar>py_round r - n\<bar> < 2" by linarith
  then show ?thesis by simp
qed

lemma quarter_lattice_3digits: "py_round_ndigits (real_of_int k / 4) 3 = real_of_int k / 4"
proof -
  have "real_of_int k / 4 * 10 ^ 3 = real_of_int (250 * k)" by simp
  then have "py_round (real_of_int k / 4 * 10 ^ 3) = 250 * k"
    using py_round_of_int [of "250 * k"] by (simp only:)
  then show ?thesis by (simp add: py_round_ndigits_def)
qed

lemma eighth_lattice_3digits:
  "py_round_ndigits (real_of_int k / 4 + 1 / 8) 3 = real_of_int k / 4 + 1 / 8"
proof -
  have "(real_of_int k / 4 + 1 / 8) * 10 ^ 3 = real_of_int (250 * k + 125)"
    by (simp add: algebra_simps)
  then have "py_round ((real_of_int k / 4 + 1 / 8) * 10 ^ 3) = 250 * k + 125"
    using py_round_of_int [of "250 * k + 125"] by (simp only:)
  then show ?thesis by (simp add: py_round_ndigits_def)
qed

lemma longitude_per_cell_value: "longitude_per_cell = 293 / 1050"
  by (simp add: longitude_per_cell_def EASTERNMOST_LONGITUDE_def WESTERNMOST_LONGITUDE_def
      EASTERNMOST_GRID_X_def WESTERNMOST_GRID_X_def)

lemma latitude_per_cell_value: "latitude_per_cell = - (29 / 126)"
  by (simp add: latitude_per_cell_def NORTHERNMOST_LATITUDE_def SOUTHERNMOST_LATITUDE_def
      NORTHERNMOST_GRID_Y_def SOUTHERNMOST_GRID_Y_def)

lemma grid_to_longitude_near:
  "\<bar>grid_to_longitude x - (68.1167 + real_of_int (x - 16) * (293 / 1050))\<bar> \<le> 1 / 8"
proof -
  define raw where "raw = 68.1167 + real_of_int (x - 16) * (293 / 1050)"
  define k where "k = py_round ((raw - 0.125) / 0.250)"
  have "grid_to_longitude x = py_round_ndigits (real_of_int k / 4 + 1 / 8) 3"
    by (simp add: grid_to_longitude_def Let_def longitude_per_cell_value
        WESTERNMOST_LONGITUDE_def WESTERNMOST_GRID_X_def raw_def k_def)
  then have q: "grid_to_longitude x = real_of_int k / 4 + 1 / 8"
    by (simp only: eighth_lattice_3digits)
  have "\<bar>real_of_int k - (raw - 0.125) / 0.250\<bar> \<le> 1 / 2"
    unfolding k_def by (rule py_round_near)
  then show ?thesis unfolding q raw_def [symmetric] by (simp add: field_simps abs_le_iff)
qed

lemma longitude_round_trip:
  assumes "16 \<le> x" and "x \<le> 121"
  shows "longitude_to_grid (grid_to_longitude x) = x"
proof -
  define raw where "raw = 68.1167 + real_of_int (x - 16) * (293 / 1050)"
  define q where "q = grid_to_longitude x"
  define q' where "q' = (if q < 68.1167 then 68.1167 else if q > 97.4167 then 97.4167 else q)"
  have near: "\<bar>q - raw\<bar> \<le> 1 / 8"
    unfolding q_def raw_def by (rule grid_to_longitude_near)
  have lo: "68.1167 \<le> raw" using assms by (simp add: raw_def)
  have "real_of_int (x - 16) \<le> 105" using assms by simp
  then have hi: "raw \<le> 97.4167" by (simp add: raw_def)
  have near': "\<bar>q' - raw\<bar> \<le> 1 / 8"
    using near lo hi by (auto simp: q'_def)
  let ?g = "16 + (q' - 68.1167) / (293 / 1050)"
  have e: "?g - real_of_int x = (q' - raw) * (1050 / 293)"
    by (simp add: raw_def field_simps)
  have "\<bar>?g - real_of_int x\<bar> = \<bar>q' - raw\<bar> * (1050 / 293)"
    unfolding e abs_mult by simp
  also have "\<dots> < 1 / 2" using near' by simp
  finally have r: "py_round ?g = x"
    by (rule py_round_unique)
  have "longitude_to_grid q = max 16 (min (py_round ?g) 121)"
    unfolding q'_def
    by (simp add: longitude_to_grid_def Let_def longitude_per_cell_value
        WESTERNMOST_LONGITUDE_def EASTERNMOST_LONGITUDE_def WESTERNMOST_GRID_X_def
        EASTERNMOST_GRID_X_def)
  then show ?thesis
    unfolding r q_def using assms by simp
qed

lemma grid_to_latitude_near:
  "\<bar>grid_to_latitude y - (37.1 - real_of_int (y - 9) * (29 / 126))\<bar> \<le> 1 / 8"
proof -
  define raw where "raw = 37.1 - real_of_int (y - 9) * (29 / 126)"
  define k where "k = py_round (raw / 0.250)"
  have "grid_to_latitude y = py_round_ndigits (real_of_int k / 4) 3"
    by (simp add: grid_to_latitude_def Let_def latitude_per_cell_value
        NORTHERNMOST_LATITUDE_def NORTHERNMOST_GRID_Y_def raw_def k_def)
  then have q: "grid_to_latitude y = real_of_int k / 4"
    by (simp only: quarter_lattice_3digits)
  have "\<bar>real_of_int k - raw / 0.250\<bar> \<le> 1 / 2"
    unfolding k_def by (rule py_round_near)
  then show ?thesis unfolding q raw_def [symmetric] by (simp add: field_simps abs_le_iff)
qed

lemma latitude_round_trip_within_one:
  assumes "9 \<le> y" and "y \<le> 135"
  shows "\<bar>latitude_to_grid (grid_to_latitude y) - y\<bar> \<le> 1"
proof -
  define raw where "raw = 37.1 - real_of_int (y - 9) * (29 / 126)"
  define q where "q = grid_to_latitude y"
  define q' where "q' = (if q > 37.1 then 37.1 else if q < 8.1 then 8.1 else q)"
  have near: "\<bar>q - raw\<bar> \<le> 1 / 8"
    unfolding q_def raw_def by (rule grid_to_latitude_near)
  have hi: "raw \<le> 37.1" using assms by (simp add: raw_def)
  have "real_of_int (y - 9) \<le> 126" using assms by simp
  then have lo: "8.1 \<le> raw" by (simp add: raw_def)
  have near': "\<bar>q' - raw\<bar> \<le> 1 / 8"
    using near lo hi by (auto simp: q'_def)
  let ?g = "9 + (q' - 37.1) / (- (29 / 126))"
  have e: "?g - real_of_int y = (raw - q') * (126 / 29)"
    by (simp add: raw_def field_simps)
  have "\<bar>?g - real_of_int y\<bar> = \<bar>raw - q'\<bar> * (126 / 29)"
    unfolding e abs_mult by simp
  also have "\<dots> < 3 / 2" using near' by (simp add: abs_minus_commute)
  finally have r: "\<bar>py_round ?g - y\<bar> \<le> 1"
    by (rule py_round_within_one)
  have "latitude_to_grid q = max 9 (min (py_round ?g) 135)"
    unfolding q'_def
    by (simp add: latitude_to_grid_def Let_def latitude_per_cell_value
        NORTHERNMOST_LATITUDE_def SOUTHERNMOST_LATITUDE_def NORTHERNMOST_GRID_Y_def
        SOUTHERNMOST_GRID_Y_def)
  then show ?thesis
    unfolding q_def using r assms by simp
qed

lemmas CoordConv_defs =
  grid_to_latitude_def grid_to_longitude_def latitude_to_grid_def longitude_to_grid_def
  NORTHERNMOST_LATITUDE_def NORTHERNMOST_GRID_Y_def SOUTHERNMOST_LATITUDE_def
  SOUTHERNMOST_GRID_Y_def WESTERNMOST_LONGITUDE_def EASTERNMOST_LONGITUDE_def
  WESTERNMOST_GRID_X_def EASTERNMOST_GRID_X_def latitude_per_cell_def longitude_per_cell_def
  py_round_def py_round_ndigits_def is_within_grid_bounds_def

text \<open>
  Claim C1, as stated: every cell of the calibration range whose quantized coordinates lie
  within the calibration bounds is returned unchanged by the round trip. It fails at the
  cell \<open>(16, 10)\<close>: row 10 has raw latitude \<open>37.1 - 29/126\<close>, which is quantized to
  \<open>36.75\<close>, inside the bounds, and \<open>36.75\<close> converts back to row 11. A row is
  \<open>29/126\<close> of a degree high, less than the quarter-degree lattice step, so two
  neighbouring rows can share one lattice latitude.
\<close>

theorem round_trip_counterexample:
  "is_within_grid_bounds (grid_to_longitude 16) (grid_to_latitude 10) \<and>
   grid_to_latitude 10 = 36.75 \<and>
   (longitude_to_grid (grid_to_longitude 16), latitude_to_grid (grid_to_latitude 10)) = (16, 11)"
  by (simp add: CoordConv_defs Let_def)

text \<open>
  Claim C1, amended: for every cell \<open>(x, y)\<close> of the calibration range
  (\<open>16 \<le> x \<le> 121\<close>, \<open>9 \<le> y \<le> 135\<close>) the round trip returns the column \<open>x\<close>
  itself and a row that differs from \<open>y\<close> by at most one.
\<close>

theorem round_trip_column_exact_row_within_one:
  assumes "16 \<le> x" and "x \<le> 121" and "9 \<le> y" and "y \<le> 135"
  shows "longitude_to_grid (grid_to_longitude x) = x \<and>
         \<bar>latitude_to_grid (grid_to_latitude y) - y\<bar> \<le> 1"
  using assms longitude_round_trip [of x] latitude_round_trip_within_one [of y] by simp

theorem round_trip_column_exact_row_within_one_witness:
  "longitude_to_grid (grid_to_longitude 16) = 16 \<and>
   \<bar>latitude_to_grid (grid_to_latitude 10) - 10\<bar> \<le> 1"
  using round_trip_column_exact_row_within_one [of 16 10] by simp

section \<open>Double precision: rounding facts\<close>

text \<open>
  What is needed of \<open>to_double\<close>: its value once the binary exponent of the argument is
  known, the bound \<open>2 ^ -53\<close> on its relative error, that it leaves a number with a
  significand of at most 53 bits as it is, and that it does not carry a number of
  magnitude below \<open>2 ^ 53\<close> across an integer.
\<close>

lemma two_powr_neg: "(2::real) powr (- real k) = 1 / 2 ^ k"
  by (simp add: powr_minus powr_realpow inverse_eq_divide)

lemma two_powr_nat: "(2::real) powr (real k) = 2 ^ k"
  by (simp add: powr_realpow)

lemma to_double_ulp:
  assumes "x \<noteq> 0" and "\<lfloor>log 2 \<bar>x\<bar>\<rfloor> = e" and "2 powr (of_int e - 52) = u"
  shows "to_double x = of_int (py_round (x / u)) * u"
  using assms by (simp only: to_double_def Let_def if_False)

lemma floor_log2_eq:
  assumes "2 powr of_int e \<le> \<bar>x\<bar>" and "\<bar>x\<bar> < 2 * 2 powr of_int e"
  shows "\<lfloor>log 2 \<bar>x\<bar>\<rfloor> = e"
proof -
  have "(0::real) < 2 powr of_int e" by simp
  then have pos: "0 < \<bar>x\<bar>" using assms(1) by linarith
  have "(2::real) powr (of_int e + 1) = 2 powr of_int e * 2 powr 1" by (rule powr_add)
  then have "\<bar>x\<bar> < 2 powr (of_int e + 1)" using assms(2) by simp
  then show ?thesis
    using floor_log_eq_powr_iff [of "\<bar>x\<bar>" 2 e] pos assms(1) by simp
qed

lemma to_double_up:
  assumes "2 ^ k \<le> \<bar>x\<bar>" and "\<bar>x\<bar> < 2 * 2 ^ k" and "k \<le> 52"
  shows "to_double x = of_int (py_round (x * 2 ^ (52 - k))) / 2 ^ (52 - k)"
proof -
  have "(0::real) < 2 ^ k" by simp
  then have "0 < \<bar>x\<bar>" using assms(1) by linarith
  then have x: "x \<noteq> 0" by simp
  have p: "(2::real) powr of_int (int k) = 2 ^ k" using two_powr_nat [of k] by simp
  have e: "\<lfloor>log 2 \<bar>x\<bar>\<rfloor> = int k"
    by (rule floor_log2_eq) (simp_all only: p assms)
  have "real_of_int (int k) - 52 = - real (52 - k)" using assms(3) by simp
  then have u: "2 powr (real_of_int (int k) - 52) = 1 / 2 ^ (52 - k)"
    by (simp only: two_powr_neg)
  show ?thesis unfolding to_double_ulp [OF x e u] by simp
qed

lemma to_double_down:
  assumes "1 / 2 ^ k \<le> \<bar>x\<bar>" and "\<bar>x\<bar> < 2 * (1 / 2 ^ k)"
  shows "to_double x = of_int (py_round (x * 2 ^ (52 + k))) / 2 ^ (52 + k)"
proof -
  have "(0::real) < 1 / 2 ^ k" by simp
  then have "0 < \<bar>x\<bar>" using assms(1) by linarith
  then have x: "x \<noteq> 0" by simp
  have p: "(2::real) powr of_int (- int k) = 1 / 2 ^ k" using two_powr_neg [of k] by simp
  have e: "\<lfloor>log 2 \<bar>x\<bar>\<rfloor> = - int k"
    by (rule floor_log2_eq) (simp_all only: p assms)
  have "real_of_int (- int k) - 52 = - real (52 + k)" by simp
  then have u: "2 powr (real_of_int (- int k) - 52) = 1 / 2 ^ (52 + k)"
    by (simp only: two_powr_neg)
  show ?thesis unfolding to_double_ulp [OF x e u] by simp
qed

lemma floor_log2_bounds:
  assumes "x \<noteq> 0"
  shows "2 powr of_int \<lfloor>log 2 \<bar>x\<bar>\<rfloor> \<le> \<bar>x\<bar>"
    and "\<bar>x\<bar> < 2 powr (of_int \<lfloor>log 2 \<bar>x\<bar>\<rfloor> + 1)"
  using floor_log_eq_powr_iff [of "\<bar>x\<bar>" 2 "\<lfloor>log 2 \<bar>x\<bar>\<rfloor>"] assms by simp_all

lemma to_double_error: "\<bar>to_double x - x\<bar> \<le> \<bar>x\<bar> / 2 ^ 53"
proof (cases "x = 0")
  case True
  then show ?thesis by (simp add: to_double_def)
next
  case False
  define e where "e = \<lfloor>log 2 \<bar>x\<bar>\<rfloor>"
  define u :: real where "u = 2 powr (of_int e - 52)"
  have u0: "0 < u" by (simp add: u_def)
  have t: "to_double x = of_int (py_round (x / u)) * u"
    by (rule to_double_ulp [OF False]) (simp_all add: e_def u_def)
  have "to_double x - x = (of_int (py_round (x / u)) - x / u) * u"
    unfolding t using u0 by (simp add: algebra_simps)
  then have "\<bar>to_double x - x\<bar> = \<bar>of_int (py_round (x / u)) - x / u\<bar> * u"
    using u0 by (simp add: abs_mult)
  also have "\<dots> \<le> (1 / 2) * u"
    using py_round_near [of "x / u"] u0 by (intro mult_right_mono) simp_all
  finally have a: "\<bar>to_double x - x\<bar> \<le> u / 2" by simp
  have "u = 2 powr of_int e * 2 powr (- 52)"
    unfolding u_def using powr_add [of "2::real" "of_int e" "- 52"] by simp
  also have "(2::real) powr (- 52) = 1 / 2 ^ 52"
    using two_powr_neg [of 52] by simp
  finally have "u = 2 powr of_int e / 2 ^ 52" by simp
  moreover have "2 powr of_int e \<le> \<bar>x\<bar>"
    unfolding e_def by (rule floor_log2_bounds(1) [OF False])
  ultimately have "u \<le> \<bar>x\<bar> / 2 ^ 52" by (simp add: divide_right_mono)
  then show ?thesis using a by simp
qed

lemma to_double_exact:
  assumes "\<bar>n\<bar> < 2 ^ 53"
  shows "to_double (of_int n / 2 ^ k) = of_int n / 2 ^ k"
proof (cases "n = 0")
  case True
  then show ?thesis by (simp add: to_double_def)
next
  case False
  define x :: real where "x = of_int n / 2 ^ k"
  have x0: "x \<noteq> 0" using False by (simp add: x_def)
  define e where "e = \<lfloor>log 2 \<bar>x\<bar>\<rfloor>"
  have "\<bar>x\<bar> = of_int \<bar>n\<bar> / 2 ^ k" by (simp add: x_def)
  also have "\<dots> < 2 ^ 53 / 2 ^ k"
  proof -
    have "real_of_int \<bar>n\<bar> < real_of_int (2 ^ 53)" using assms by (simp only: of_int_less_iff)
    then show ?thesis by (simp add: divide_strict_right_mono)
  qed
  also have "\<dots> = 2 powr (53 - real k)"
  proof -
    have "(2::real) powr (53 - real k) = 2 powr 53 * 2 powr (- real k)"
      using powr_add [of "2::real" 53 "- real k"] by simp
    also have "(2::real) powr 53 = 2 ^ 53" using two_powr_nat [of 53] by simp
    finally show ?thesis by (simp add: two_powr_neg)
  qed
  finally have up: "\<bar>x\<bar> < 2 powr (53 - real k)" .
  have "2 powr of_int e \<le> \<bar>x\<bar>"
    unfolding e_def by (rule floor_log2_bounds(1) [OF x0])
  then have "2 powr of_int e < 2 powr (53 - real k)" using up by linarith
  then have "real_of_int e < 53 - real k" by simp
  then have "e < 53 - int k" by linarith
  then have j: "0 \<le> 52 - int k - e" by simp
  define j where "j = nat (52 - int k - e)"
  have ej: "real_of_int e - 52 = - real (k + j)" using j by (simp add: j_def)
  have u: "2 powr (real_of_int e - 52) = 1 / 2 ^ (k + j)"
    unfolding ej by (rule two_powr_neg)
  have t: "to_double x = of_int (py_round (x / (1 / 2 ^ (k + j)))) * (1 / 2 ^ (k + j))"
    by (rule to_double_ulp [OF x0 _ u]) (simp add: e_def)
  have "x / (1 / 2 ^ (k + j)) = of_int (n * 2 ^ j)"
    by (simp add: x_def power_add)
  then have "py_round (x / (1 / 2 ^ (k + j))) = n * 2 ^ j"
    by (simp only: py_round_of_int)
  then have "to_double x = of_int (n * 2 ^ j) * (1 / 2 ^ (k + j))" unfolding t by simp
  also have "\<dots> = x" by (simp add: x_def power_add)
  finally show ?thesis unfolding x_def .
qed

lemma to_double_of_int: "\<bar>n\<bar> < 2 ^ 53 \<Longrightarrow> to_double (of_int n) = of_int n"
  using to_double_exact [of n 0] by simp

lemma py_round_mono:
  assumes "x \<le> y"
  shows "py_round x \<le> py_round y"
proof (rule ccontr)
  assume "\<not> py_round x \<le> py_round y"
  then have "py_round y + 1 \<le> py_round x" by simp
  then have "real_of_int (py_round y) + 1 \<le> real_of_int (py_round x)" by linarith
  then have "x = y" using py_round_near [of x] py_round_near [of y] assms by linarith
  then show False using \<open>\<not> py_round x \<le> py_round y\<close> by simp
qed

lemma to_double_grid:
  assumes "x \<noteq> 0" and "\<bar>x\<bar> < 2 ^ 53"
  shows "\<exists>j. to_double x = of_int (py_round (x * 2 ^ j)) / 2 ^ j"
proof -
  define e where "e = \<lfloor>log 2 \<bar>x\<bar>\<rfloor>"
  have "2 powr of_int e \<le> \<bar>x\<bar>" unfolding e_def by (rule floor_log2_bounds(1) [OF assms(1)])
  also have "\<bar>x\<bar> < 2 powr 53" using assms(2) two_powr_nat [of 53] by simp
  finally have lt: "2 powr real_of_int e < 2 powr 53" .
  have "real_of_int e < 53" by (rule powr_less_cancel [OF lt]) simp
  then have e: "e \<le> 52" by linarith
  define j where "j = nat (52 - e)"
  have "real_of_int e - 52 = - real j" using e by (simp add: j_def)
  then have u: "2 powr (real_of_int e - 52) = 1 / 2 ^ j" by (simp only: two_powr_neg)
  have "to_double x = of_int (py_round (x / (1 / 2 ^ j))) * (1 / 2 ^ j)"
    by (rule to_double_ulp [OF assms(1) _ u]) (simp add: e_def)
  then have "to_double x = of_int (py_round (x * 2 ^ j)) / 2 ^ j" by simp
  then show ?thesis ..
qed

lemma to_double_le_int:
  assumes "\<bar>x\<bar> < 2 ^ 53" and "x \<le> of_int n"
  shows "to_double x \<le> of_int n"
proof (cases "x = 0")
  case True
  then show ?thesis using assms(2) by (simp add: to_double_def)
next
  case False
  obtain j where j: "to_double x = of_int (py_round (x * 2 ^ j)) / 2 ^ j"
    using to_double_grid [OF False assms(1)] by blast
  have "x * 2 ^ j \<le> of_int (n * 2 ^ j)" using assms(2) by (simp add: mult_right_mono)
  then have "py_round (x * 2 ^ j) \<le> py_round (of_int (n * 2 ^ j))" by (rule py_round_mono)
  then have "py_round (x * 2 ^ j) \<le> n * 2 ^ j" by (simp only: py_round_of_int)
  then have "real_of_int (py_round (x * 2 ^ j)) \<le> real_of_int (n * 2 ^ j)" by linarith
  then have "real_of_int (py_round (x * 2 ^ j)) / 2 ^ j \<le> real_of_int (n * 2 ^ j) / 2 ^ j"
    by (rule divide_right_mono) simp
  then show ?thesis unfolding j by simp
qed

lemma to_double_ge_int:
  assumes "\<bar>x\<bar> < 2 ^ 53" and "of_int n \<le> x"
  shows "of_int n \<le> to_double x"
proof (cases "x = 0")
  case True
  then show ?thesis using assms(2) by (simp add: to_double_def)
next
  case False
  obtain j where j: "to_double x = of_int (py_round (x * 2 ^ j)) / 2 ^ j"
    using to_double_grid [OF False assms(1)] by blast
  have "of_int (n * 2 ^ j) \<le> x * 2 ^ j" using assms(2) by (simp add: mult_right_mono)
  then have "py_round (of_int (n * 2 ^ j)) \<le> py_round (x * 2 ^ j)" by (rule py_round_mono)
  then have "n * 2 ^ j \<le> py_round (x * 2 ^ j)" by (simp only: py_round_of_int)
  then have "real_of_int (n * 2 ^ j) \<le> real_of_int (py_round (x * 2 ^ j))" by linarith
  then have "real_of_int (n * 2 ^ j) / 2 ^ j \<le> real_of_int (py_round (x * 2 ^ j)) / 2 ^ j"
    by (rule divide_right_mono) simp
  then show ?thesis unfolding j by simp
qed

section \<open>Alignment: the tolerance arc\<close>

subsection \<open>The arc without rounding\<close>

lemma py_fmod_range: "0 < m \<Longrightarrow> 0 \<le> py_fmod x m \<and> py_fmod x m < m"
proof -
  assume m: "0 < m"
  have "of_int \<lfloor>x / m\<rfloor> * m \<le> x" "x < (of_int \<lfloor>x / m\<rfloor> + 1) * m"
    using m floor_divide_lower [of m x] floor_divide_upper [of m x] by simp_all
  then show ?thesis unfolding py_fmod_def by (simp add: algebra_simps)
qed

lemma py_fmod_unique:
  assumes "0 \<le> x - m * of_int k" "x - m * of_int k < m" "0 < m"
  shows "py_fmod x m = x - m * of_int k"
proof -
  have "of_int k \<le> x / m" "x / m < of_int k + 1"
    using assms by (simp_all add: field_simps)
  then have "\<lfloor>x / m\<rfloor> = k" by linarith
  then show ?thesis by (simp add: py_fmod_def)
qed

lemma within_25_tolerance: "within_25_degrees d a = within_tolerance 25 d a"
  by (simp add: within_25_degrees_def within_tolerance_def)

lemma wrapped_bounds:
  fixes d :: real
  defines "w \<equiv> py_fmod d 360"
  shows "py_fmod (d - 25) 360 = (if 25 \<le> w then w - 25 else w + 335)"
    and "py_fmod (d + 25) 360 = (if w < 335 then w + 25 else w - 335)"
proof -
  define q where "q = \<lfloor>d / 360\<rfloor>"
  have wq: "w = d - 360 * of_int q" by (simp add: w_def q_def py_fmod_def)
  have w: "0 \<le> w" "w < 360"
    using py_fmod_range [of 360 d] by (simp_all add: w_def)
  show "py_fmod (d - 25) 360 = (if 25 \<le> w then w - 25 else w + 335)"
  proof (cases "25 \<le> w")
    case True
    then show ?thesis using w py_fmod_unique [of "d - 25" 360 q] by (simp add: wq)
  next
    case False
    then show ?thesis using w py_fmod_unique [of "d - 25" 360 "q - 1"] by (simp add: wq)
  qed
  show "py_fmod (d + 25) 360 = (if w < 335 then w + 25 else w - 335)"
  proof (cases "w < 335")
    case True
    then show ?thesis using w py_fmod_unique [of "d + 25" 360 q] by (simp add: wq)
  next
    case False
    then show ?thesis using w py_fmod_unique [of "d + 25" 360 "q + 1"] by (simp add: wq)
  qed
qed

lemma within_tolerance_cases:
  assumes "0 \<le> a" "a < 360" "t < 360"
  shows "within_tolerance t d a \<longleftrightarrow>
     (\<bar>of_int a - py_fmod d 360\<bar> \<le> t \<or> \<bar>of_int a - py_fmod d 360 - 360\<bar> \<le> t \<or>
      \<bar>of_int a - py_fmod d 360 + 360\<bar> \<le> t)"
proof -
  define q where "q = \<lfloor>d / 360\<rfloor>"
  define w where "w = py_fmod d 360"
  have wq: "w = d - 360 * of_int q" by (simp add: w_def q_def py_fmod_def)
  have w: "0 \<le> w" "w < 360"
    using py_fmod_range [of 360 d] by (simp_all add: w_def)
  have "within_tolerance t d a \<longleftrightarrow>
      (\<bar>of_int a - w\<bar> \<le> t \<or> \<bar>of_int a - w - 360\<bar> \<le> t \<or> \<bar>of_int a - w + 360\<bar> \<le> t)"
  proof
    assume "within_tolerance t d a"
    then obtain k :: int where k: "\<bar>of_int a - d + 360 * of_int k\<bar> \<le> t"
      by (auto simp: within_tolerance_def)
    define j where "j = k - q"
    have e: "of_int a - d + 360 * of_int k = of_int a - w + 360 * real_of_int j"
      by (simp add: wq j_def)
    have j: "\<bar>of_int a - w + 360 * real_of_int j\<bar> \<le> t" using k e by simp
    have "real_of_int j < 2" "real_of_int j > - 2" using j w assms by linarith+
    then have "j < 2" "j > - 2" by linarith+
    then have "j = -1 \<or> j = 0 \<or> j = 1" by linarith
    then show "\<bar>of_int a - w\<bar> \<le> t \<or> \<bar>of_int a - w - 360\<bar> \<le> t \<or> \<bar>of_int a - w + 360\<bar> \<le> t"
      using j by auto
  next
    assume h: "\<bar>of_int a - w\<bar> \<le> t \<or> \<bar>of_int a - w - 360\<bar> \<le> t \<or> \<bar>of_int a - w + 360\<bar> \<le> t"
    have e: "of_int a - d + 360 * real_of_int (q + j) = of_int a - w + 360 * real_of_int j" for j
      by (simp add: wq)
    from h consider "\<bar>of_int a - w\<bar> \<le> t" | "\<bar>of_int a - w - 360\<bar> \<le> t" | "\<bar>of_int a - w + 360\<bar> \<le> t"
      by blast
    then show "within_tolerance t d a"
    proof cases
      case 1
      then have "\<bar>of_int a - d + 360 * real_of_int (q + 0)\<bar> \<le> t" unfolding e by simp
      then show ?thesis unfolding within_tolerance_def by blast
    next
      case 2
      then have "\<bar>of_int a - d + 360 * real_of_int (q + (-1))\<bar> \<le> t" unfolding e by simp
      then show ?thesis unfolding within_tolerance_def by blast
    next
      case 3
      then have "\<bar>of_int a - d + 360 * real_of_int (q + 1)\<bar> \<le> t" unfolding e by simp
      then show ?thesis unfolding within_tolerance_def by blast
    qed
  qed
  then show ?thesis unfolding w_def .
qed

lemma union_of_wrapped_ranges_iff:
  assumes "0 \<le> a" "a < 360"
  shows "union_of_wrapped_ranges d a \<longleftrightarrow> within_25_degrees d a"
proof -
  have w: "0 \<le> py_fmod d 360" "py_fmod d 360 < 360"
    using py_fmod_range [of 360 d] by simp_all
  show ?thesis
    unfolding union_of_wrapped_ranges_def Let_def wrapped_bounds within_25_tolerance
      within_tolerance_cases [OF assms, of 25 d, simplified]
    using w assms by (auto simp: abs_le_iff)
qed

subsection \<open>The movement angles of the eight moves\<close>

lemma movement_angle_range: "0 \<le> movement_angle dx dy \<and> movement_angle dx dy < 360"
  by (simp add: movement_angle_def)

lemma movement_angle_east: "movement_angle 1 0 = 0"
  by (simp add: movement_angle_def atan2_def degrees_def py_round_def)

lemma movement_angle_1_1: "movement_angle 1 1 = 45"
  by (simp add: movement_angle_def atan2_def degrees_def py_round_def arctan_one)

lemma movement_angle_0_1: "movement_angle 0 1 = 90"
  by (simp add: movement_angle_def atan2_def degrees_def py_round_def)

lemma movement_angle_m1_1: "movement_angle (-1) 1 = 135"
  by (simp add: movement_angle_def atan2_def degrees_def py_round_def arctan_minus arctan_one)

lemma movement_angle_m1_0: "movement_angle (-1) 0 = 180"
  by (simp add: movement_angle_def atan2_def degrees_def py_round_def)

lemma movement_angle_m1_m1: "movement_angle (-1) (-1) = 225"
  by (simp add: movement_angle_def atan2_def degrees_def py_round_def arctan_one)

lemma movement_angle_0_m1: "movement_angle 0 (-1) = 270"
  by (simp add: movement_angle_def atan2_def degrees_def py_round_def)

lemma movement_angle_1_m1: "movement_angle 1 (-1) = 315"
  by (simp add: movement_angle_def atan2_def degrees_def py_round_def arctan_minus arctan_one)

subsection \<open>Bounds computed without rounding\<close>

lemma py_float_mod_cases:
  assumes "0 < m"
  shows "py_float_mod x m = py_fmod x m \<or> py_float_mod x m = to_double (py_fmod x m)"
proof (cases "0 \<le> x / m")
  case True
  then have r: "c_fmod x m = py_fmod x m" by (simp add: c_fmod_def py_fmod_def)
  show ?thesis using py_fmod_range [OF assms(1), of x] by (simp add: py_float_mod_def r Let_def)
next
  case False
  show ?thesis
  proof (cases "of_int \<lfloor>x / m\<rfloor> = x / m")
    case True
    then have "\<lceil>x / m\<rceil> = \<lfloor>x / m\<rfloor>" by (metis ceiling_of_int)
    then have r: "c_fmod x m = py_fmod x m" by (simp add: c_fmod_def py_fmod_def)
    have "m * of_int \<lfloor>x / m\<rfloor> = m * (x / m)" by (simp only: True)
    also have "\<dots> = x" using assms(1) by simp
    finally have "py_fmod x m = 0" by (simp only: py_fmod_def diff_self)
    then show ?thesis by (simp add: py_float_mod_def r Let_def)
  next
    case notint: False
    then have "\<lceil>x / m\<rceil> = \<lfloor>x / m\<rfloor> + 1" by (simp add: ceiling_altdef)
    then have r: "c_fmod x m = py_fmod x m - m"
      using False by (simp add: c_fmod_def py_fmod_def algebra_simps)
    have "py_fmod x m - m < 0" using py_fmod_range [OF assms(1), of x] by simp
    then show ?thesis using assms by (simp add: py_float_mod_def r Let_def fadd_def)
  qed
qed

lemma py_float_mod_exact:
  assumes "0 < m" and "to_double (py_fmod x m) = py_fmod x m"
  shows "py_float_mod x m = py_fmod x m"
  using py_float_mod_cases [OF assms(1), of x] assms(2) by auto

lemma short_bearing_shift:
  assumes "short_bearing d" and "\<bar>j\<bar> \<le> 25"
  shows "to_double (d + of_int j) = d + of_int j"
    and "to_double (py_fmod (d + of_int j) 360) = py_fmod (d + of_int j) 360"
proof -
  define n where "n = \<lfloor>d * 2 ^ 40\<rfloor>"
  have dn: "d * 2 ^ 40 = of_int n" using assms(1) by (simp add: short_bearing_def n_def)
  have "\<bar>d * 2 ^ 40\<bar> \<le> 4096 * 2 ^ 40"
    using assms(1) by (simp add: short_bearing_def abs_mult)
  then have "\<bar>real_of_int n\<bar> \<le> real_of_int (4096 * 2 ^ 40)" unfolding dn by simp
  then have n: "\<bar>n\<bar> \<le> 4096 * 2 ^ 40" by linarith
  have d: "d = of_int n / 2 ^ 40" using dn by (simp add: field_simps)
  have s: "d + of_int j = of_int (n + j * 2 ^ 40) / 2 ^ 40" by (simp add: d field_simps)
  have "\<bar>n + j * 2 ^ 40\<bar> < 2 ^ 53" using n assms(2) by simp
  then show "to_double (d + of_int j) = d + of_int j"
    unfolding s by (rule to_double_exact)
  define q where "q = \<lfloor>(d + of_int j) / 360\<rfloor>"
  have p: "py_fmod (d + of_int j) 360 = of_int (n + j * 2 ^ 40 - 360 * 2 ^ 40 * q) / 2 ^ 40"
    unfolding py_fmod_def q_def [symmetric] by (simp add: d field_simps)
  have "0 \<le> py_fmod (d + of_int j) 360" "py_fmod (d + of_int j) 360 < 360"
    using py_fmod_range [of 360 "d + of_int j"] by simp_all
  then have "0 \<le> real_of_int (n + j * 2 ^ 40 - 360 * 2 ^ 40 * q)"
    "real_of_int (n + j * 2 ^ 40 - 360 * 2 ^ 40 * q) < real_of_int (360 * 2 ^ 40)"
    unfolding p by (simp_all add: field_simps)
  then have "0 \<le> n + j * 2 ^ 40 - 360 * 2 ^ 40 * q" "n + j * 2 ^ 40 - 360 * 2 ^ 40 * q < 360 * 2 ^ 40"
    by linarith+
  then have "\<bar>n + j * 2 ^ 40 - 360 * 2 ^ 40 * q\<bar> < 2 ^ 53" by simp
  then show "to_double (py_fmod (d + of_int j) 360) = py_fmod (d + of_int j) 360"
    unfolding p by (rule to_double_exact)
qed

lemma direction_test_short_bearing:
  assumes "short_bearing d"
  shows "direction_test d a = (if union_of_wrapped_ranges d a then 1 else 0)"
proof -
  have l1: "fsub d 25 = d - 25"
    using short_bearing_shift(1) [OF assms, of "- 25"] by (simp add: fsub_def)
  have l2: "py_float_mod (d - 25) 360 = py_fmod (d - 25) 360"
    using short_bearing_shift(2) [OF assms, of "- 25"] by (intro py_float_mod_exact) simp_all
  have u1: "fadd d 25 = d + 25"
    using short_bearing_shift(1) [OF assms, of 25] by (simp add: fadd_def)
  have u2: "py_float_mod (d + 25) 360 = py_fmod (d + 25) 360"
    using short_bearing_shift(2) [OF assms, of 25] by (intro py_float_mod_exact) simp_all
  show ?thesis
    unfolding direction_test_def union_of_wrapped_ranges_def l1 l2 u1 u2 Let_def ..
qed

lemma direction_test_short:
  assumes "short_bearing d" and "0 \<le> a" and "a < 360"
  shows "direction_test d a = 1 \<longleftrightarrow> within_25_degrees d a"
  using direction_test_short_bearing [OF assms(1), of a]
    union_of_wrapped_ranges_iff [OF assms(2,3), of d]
  by simp

lemma short_bearing_10: "short_bearing 10"
  by (simp add: short_bearing_def)

lemma short_bearing_200: "short_bearing 200"
  by (simp add: short_bearing_def)

lemma ten_degrees: "direction_test 10 a = (if 345 \<le> a \<or> a \<le> 35 then 1 else 0)"
proof -
  have "py_fmod (10 - 25) 360 = 345" "py_fmod (10 + 25) 360 = 35"
    by (simp_all add: py_fmod_def)
  then have "union_of_wrapped_ranges 10 a = (345 \<le> a \<or> a \<le> 35)"
    unfolding union_of_wrapped_ranges_def Let_def by auto
  then show ?thesis using direction_test_short_bearing [OF short_bearing_10, of a] by simp
qed

lemma direction_test_01: "direction_test d a = 0 \<or> direction_test d a = 1"
  by (simp add: direction_test_def Let_def)

subsection \<open>Bounds computed with rounding\<close>

text \<open>
  A bound of the source differs from the bound without rounding by at most \<open>2 ^ -41\<close>,
  or it is 0 where the bound without rounding is just below 360. So the test of the source
  and the arc of 25 degrees agree on every angle that is not within \<open>2 ^ -40\<close> of an end
  of the arc.
\<close>

lemma arc_band_in:
  fixes a w lo up L U e :: real
  assumes "0 \<le> a" "a < 360" "0 \<le> w" "w < 360"
    and "L = (if 25 \<le> w then w - 25 else w + 335)"
    and "U = (if w < 335 then w + 25 else w - 335)"
    and "0 \<le> lo" "lo \<le> 360" "0 \<le> up" "up \<le> 360"
    and "\<bar>lo - L\<bar> \<le> e \<or> (lo = 0 \<and> 360 - e \<le> L)"
    and "\<bar>up - U\<bar> \<le> e \<or> (up = 0 \<and> 360 - e \<le> U)"
    and "0 < e" "e \<le> 1"
    and "\<bar>a - w\<bar> \<le> 25 - 2 * e \<or> \<bar>a - w - 360\<bar> \<le> 25 - 2 * e \<or> \<bar>a - w + 360\<bar> \<le> 25 - 2 * e"
  shows "(lo \<le> a \<and> a \<le> up) \<or> (lo > up \<and> (a \<ge> lo \<or> a \<le> up))"
  using assms by (auto split: if_splits)

lemma arc_band_out:
  fixes a w lo up L U e :: real
  assumes "0 \<le> a" "a < 360" "0 \<le> w" "w < 360"
    and "L = (if 25 \<le> w then w - 25 else w + 335)"
    and "U = (if w < 335 then w + 25 else w - 335)"
    and "0 \<le> lo" "lo \<le> 360" "0 \<le> up" "up \<le> 360"
    and "\<bar>lo - L\<bar> \<le> e \<or> (lo = 0 \<and> 360 - e \<le> L)"
    and "\<bar>up - U\<bar> \<le> e \<or> (up = 0 \<and> 360 - e \<le> U)"
    and "0 < e" "e \<le> 1"
    and "(lo \<le> a \<and> a \<le> up) \<or> (lo > up \<and> (a \<ge> lo \<or> a \<le> up))"
  shows "\<bar>a - w\<bar> \<le> 25 + 2 * e \<or> \<bar>a - w - 360\<bar> \<le> 25 + 2 * e \<or> \<bar>a - w + 360\<bar> \<le> 25 + 2 * e"
  using assms by (auto split: if_splits)

lemma rounded_bound:
  assumes "\<bar>x\<bar> \<le> 3625"
  shows "0 \<le> py_float_mod (to_double x) 360 \<and> py_float_mod (to_double x) 360 \<le> 360 \<and>
     (\<bar>py_float_mod (to_double x) 360 - py_fmod x 360\<bar> \<le> 1 / 2 ^ 41 \<or>
      (py_float_mod (to_double x) 360 = 0 \<and> 360 - 1 / 2 ^ 41 \<le> py_fmod x 360))"
proof -
  define q where "q = \<lfloor>x / 360\<rfloor>"
  define z where "z = to_double x"
  have Y: "py_fmod x 360 = x - 360 * of_int q" by (simp add: py_fmod_def q_def)
  have fl: "of_int (360 * q) \<le> x" "x \<le> of_int (360 * (q + 1))"
    using py_fmod_range [of 360 x] unfolding Y by simp_all
  have small: "\<bar>x\<bar> < 2 ^ 53" using assms by simp
  have z1: "of_int (360 * q) \<le> z" unfolding z_def by (rule to_double_ge_int [OF small fl(1)])
  have z2: "z \<le> of_int (360 * (q + 1))" unfolding z_def by (rule to_double_le_int [OF small fl(2)])
  have "\<bar>z - x\<bar> \<le> \<bar>x\<bar> / 2 ^ 53" unfolding z_def by (rule to_double_error)
  also have "\<dots> \<le> 3625 / 2 ^ 53" using assms by (simp add: divide_right_mono)
  finally have zx: "\<bar>z - x\<bar> \<le> 3625 / 2 ^ 53" .
  show ?thesis
  proof (cases "z = of_int (360 * (q + 1))")
    case True
    have "py_fmod z 360 = z - 360 * of_int (q + 1)"
      by (rule py_fmod_unique) (simp_all add: True)
    then have m0: "py_fmod z 360 = 0" by (simp add: True)
    have "py_float_mod z 360 = 0"
      using py_float_mod_cases [of 360 z] unfolding m0 by (simp add: to_double_def)
    moreover have "360 - 1 / 2 ^ 41 \<le> py_fmod x 360"
    proof -
      have "z - 3625 / 2 ^ 53 \<le> x" using zx by linarith
      moreover have "z = 360 * of_int q + 360" using True by simp
      moreover have "(3625::real) / 2 ^ 53 \<le> 1 / 2 ^ 41" by simp
      ultimately show ?thesis unfolding Y by linarith
    qed
    ultimately show ?thesis unfolding z_def [symmetric] by simp
  next
    case False
    then have lt: "z < of_int (360 * (q + 1))" using z2 by simp
    define y where "y = py_fmod z 360"
    have "py_fmod z 360 = z - 360 * of_int q"
      by (rule py_fmod_unique) (use z1 lt in simp_all)
    then have y: "y = z - 360 * of_int q" by (simp add: y_def)
    have yr: "0 \<le> y" "y < 360" using z1 lt unfolding y by simp_all
    have yY: "\<bar>y - py_fmod x 360\<bar> \<le> 3625 / 2 ^ 53" unfolding y Y using zx by simp
    have ys: "\<bar>y\<bar> < 2 ^ 53" using yr by simp
    have t0: "0 \<le> to_double y" using to_double_ge_int [OF ys, of 0] yr by simp
    have t1: "to_double y \<le> 360" using to_double_le_int [OF ys, of 360] yr by simp
    have "\<bar>to_double y - y\<bar> \<le> \<bar>y\<bar> / 2 ^ 53" by (rule to_double_error)
    also have "\<dots> \<le> 360 / 2 ^ 53" using yr by (simp add: divide_right_mono)
    finally have ty: "\<bar>to_double y - y\<bar> \<le> 360 / 2 ^ 53" .
    from py_float_mod_cases [of 360 z]
    have "py_float_mod z 360 = y \<or> py_float_mod z 360 = to_double y" by (simp add: y_def)
    then show ?thesis
    proof
      assume p: "py_float_mod z 360 = y"
      have "(3625::real) / 2 ^ 53 \<le> 1 / 2 ^ 41" by simp
      then have "\<bar>y - py_fmod x 360\<bar> \<le> 1 / 2 ^ 41" using yY by linarith
      then show ?thesis unfolding z_def [symmetric] p using yr by simp
    next
      assume p: "py_float_mod z 360 = to_double y"
      have "(3625::real) / 2 ^ 53 + 360 / 2 ^ 53 \<le> 1 / 2 ^ 41" by simp
      then have "\<bar>to_double y - py_fmod x 360\<bar> \<le> 1 / 2 ^ 41" using yY ty by linarith
      then show ?thesis unfolding z_def [symmetric] p using t0 t1 by simp
    qed
  qed
qed

lemma direction_test_band:
  assumes "\<bar>d\<bar> \<le> 3600" and "0 \<le> a" and "a < 360"
  shows "within_tolerance (25 - 1 / 2 ^ 40) d a \<Longrightarrow> direction_test d a = 1"
    and "direction_test d a = 1 \<Longrightarrow> within_tolerance (25 + 1 / 2 ^ 40) d a"
proof -
  define w where "w = py_fmod d 360"
  define lo where "lo = py_float_mod (fsub d 25) 360"
  define up where "up = py_float_mod (fadd d 25) 360"
  define L where "L = py_fmod (d - 25) 360"
  define U where "U = py_fmod (d + 25) 360"
  have w: "0 \<le> w" "w < 360" using py_fmod_range [of 360 d] by (simp_all add: w_def)
  have L: "L = (if 25 \<le> w then w - 25 else w + 335)"
    unfolding L_def w_def by (rule wrapped_bounds(1))
  have U: "U = (if w < 335 then w + 25 else w - 335)"
    unfolding U_def w_def by (rule wrapped_bounds(2))
  have "\<bar>d - 25\<bar> \<le> 3625" using assms(1) by simp
  from rounded_bound [OF this]
  have lo: "0 \<le> lo" "lo \<le> 360" "\<bar>lo - L\<bar> \<le> 1 / 2 ^ 41 \<or> (lo = 0 \<and> 360 - 1 / 2 ^ 41 \<le> L)"
    unfolding lo_def L_def fsub_def by blast+
  have "\<bar>d + 25\<bar> \<le> 3625" using assms(1) by simp
  from rounded_bound [OF this]
  have up: "0 \<le> up" "up \<le> 360" "\<bar>up - U\<bar> \<le> 1 / 2 ^ 41 \<or> (up = 0 \<and> 360 - 1 / 2 ^ 41 \<le> U)"
    unfolding up_def U_def fadd_def by blast+
  have a: "0 \<le> real_of_int a" "real_of_int a < 360" using assms(2,3) by simp_all
  have e: "(0::real) < 1 / 2 ^ 41" "(1::real) / 2 ^ 41 \<le> 1" by simp_all
  have test: "direction_test d a = 1 \<longleftrightarrow>
      (lo \<le> of_int a \<and> of_int a \<le> up) \<or> (lo > up \<and> (of_int a \<ge> lo \<or> of_int a \<le> up))"
    by (simp add: direction_test_def lo_def up_def Let_def)
  have tol: "25 - 2 * (1 / 2 ^ 41) = (25 - 1 / 2 ^ 40 :: real)"
    "25 + 2 * (1 / 2 ^ 41) = (25 + 1 / 2 ^ 40 :: real)" by simp_all
  {
    assume "within_tolerance (25 - 1 / 2 ^ 40) d a"
    then have "\<bar>of_int a - w\<bar> \<le> 25 - 2 * (1 / 2 ^ 41) \<or>
        \<bar>of_int a - w - 360\<bar> \<le> 25 - 2 * (1 / 2 ^ 41) \<or>
        \<bar>of_int a - w + 360\<bar> \<le> 25 - 2 * (1 / 2 ^ 41)"
      unfolding tol w_def using within_tolerance_cases [OF assms(2,3), of "25 - 1 / 2 ^ 40" d]
      by simp
    from arc_band_in [OF a w L U lo(1,2) up(1,2) lo(3) up(3) e this]
    show "direction_test d a = 1" unfolding test .
  }
  {
    assume "direction_test d a = 1"
    then have "(lo \<le> of_int a \<and> of_int a \<le> up) \<or> (lo > up \<and> (of_int a \<ge> lo \<or> of_int a \<le> up))"
      unfolding test .
    from arc_band_out [OF a w L U lo(1,2) up(1,2) lo(3) up(3) e this]
    show "within_tolerance (25 + 1 / 2 ^ 40) d a"
      unfolding tol w_def using within_tolerance_cases [OF assms(2,3), of "25 + 1 / 2 ^ 40" d]
      by simp
  }
qed

subsection \<open>The two alignment functions\<close>

lemma edge_bearing_is_double: "to_double (20 - 1 / 2 ^ 48) = 20 - 1 / 2 ^ 48"
  using to_double_exact [of "20 * 2 ^ 48 - 1" 48] by simp

lemma edge_bearing_upper: "py_float_mod (fadd (20 - 1 / 2 ^ 48) 25) 360 = 45"
proof -
  have "fadd (20 - 1 / 2 ^ 48) 25 = 45"
    unfolding fadd_def using to_double_up [of 5 "20 - 1 / 2 ^ 48 + 25"]
    by (simp add: py_round_def)
  moreover have "py_float_mod 45 360 = 45"
    by (simp add: py_float_mod_def c_fmod_def Let_def)
  ultimately show ?thesis by simp
qed

lemma edge_bearing_lower: "py_float_mod (fsub (20 - 1 / 2 ^ 48) 25) 360 = 355"
proof -
  have "fsub (20 - 1 / 2 ^ 48) 25 = - 5 - 1 / 2 ^ 48"
    unfolding fsub_def using to_double_exact [of "- 5 * 2 ^ 48 - 1" 48] by simp
  moreover have "c_fmod (- 5 - 1 / 2 ^ 48) 360 = - 5 - 1 / 2 ^ 48"
    by (simp add: c_fmod_def)
  moreover have "fadd (- 5 - 1 / 2 ^ 48) 360 = 355"
    unfolding fadd_def using to_double_up [of 8 "- 5 - 1 / 2 ^ 48 + 360"]
    by (simp add: py_round_def)
  ultimately show ?thesis by (simp add: py_float_mod_def Let_def)
qed

lemma edge_bearing_test: "direction_test (20 - 1 / 2 ^ 48) 45 = 1"
  unfolding direction_test_def edge_bearing_lower edge_bearing_upper by (simp add: Let_def)

lemma edge_bearing_outside: "\<not> within_25_degrees (20 - 1 / 2 ^ 48) 45"
proof -
  have "py_fmod (20 - 1 / 2 ^ 48 - 25) 360 = 355 - 1 / 2 ^ 48"
    using py_fmod_unique [of "20 - 1 / 2 ^ 48 - 25" 360 "- 1"] by simp
  moreover have "py_fmod (20 - 1 / 2 ^ 48 + 25) 360 = 45 - 1 / 2 ^ 48"
    using py_fmod_unique [of "20 - 1 / 2 ^ 48 + 25" 360 0] by simp
  ultimately have "\<not> union_of_wrapped_ranges (20 - 1 / 2 ^ 48) 45"
    unfolding union_of_wrapped_ranges_def Let_def by simp
  then show ?thesis using union_of_wrapped_ranges_iff [of 45 "20 - 1 / 2 ^ 48"] by simp
qed

lemma cached_wind_direction:
  "fst (is_aligned_with_wind E (c\<lparr>wind_cache := [(long, lat) \<mapsto> d]\<rparr>) long lat dx dy) =
     direction_test d (movement_angle dx dy)"
  by (simp add: is_aligned_with_wind_def Let_def)

lemma cached_current_direction:
  "fst (is_aligned_with_current E (c\<lparr>current_cache := [(long, lat) \<mapsto> d]\<rparr>) long lat dx dy) =
     direction_test d (movement_angle dx dy)"
  by (simp add: is_aligned_with_current_def Let_def)

text \<open>
  Claim C4, as stated, fails on the program's floats. The direction \<open>20 - 2 ^ -48\<close> is a
  double. For the move \<open>(1, 1)\<close> the movement angle is 45, farther than 25 from the
  direction under every full turn. But the upper bound \<^verbatim>\<open>(direction + 25) % 360\<close> is
  computed in double precision: \<open>45 - 2 ^ -48\<close> lies halfway between the doubles
  \<open>45 - 2 ^ -47\<close> and 45 and is rounded to 45, the lower bound is rounded to 355, and
  both functions return 1.
\<close>

theorem rounded_bound_admits_angle_outside_arc:
  "to_double (20 - 1 / 2 ^ 48) = 20 - 1 / 2 ^ 48 \<and>
   movement_angle 1 1 = 45 \<and>
   \<not> within_25_degrees (20 - 1 / 2 ^ 48) (movement_angle 1 1) \<and>
   fst (is_aligned_with_wind open_sea
          (no_caches\<lparr>wind_cache := [(20, 100) \<mapsto> 20 - 1 / 2 ^ 48]\<rparr>) 20 100 1 1) = 1 \<and>
   fst (is_aligned_with_current open_sea
          (no_caches\<lparr>current_cache := [(20, 100) \<mapsto> 20 - 1 / 2 ^ 48]\<rparr>) 20 100 1 1) = 1"
  unfolding cached_wind_direction cached_current_direction movement_angle_1_1
  using edge_bearing_is_double edge_bearing_outside edge_bearing_test by blast

lemma wind_hit:
  assumes "wind_cache c (long, lat) = Some d"
  shows "is_aligned_with_wind E c long lat dx dy = (direction_test d (movement_angle dx dy), c)"
  using assms by (simp add: is_aligned_with_wind_def Let_def)

lemma wind_miss:
  assumes "wind_cache c (long, lat) = None"
  shows "is_aligned_with_wind E c long lat dx dy =
     (let d = retrieve_wind_direction E (round_longitude (grid_to_longitude long))
                (round_latitude (grid_to_latitude lat))
      in (direction_test d (movement_angle dx dy),
          c\<lparr>wind_cache := (wind_cache c)((long, lat) \<mapsto> d)\<rparr>))"
  using assms by (simp add: is_aligned_with_wind_def Let_def)

lemma current_hit:
  assumes "current_cache c (long, lat) = Some d"
  shows "is_aligned_with_current E c long lat dx dy = (direction_test d (movement_angle dx dy), c)"
  using assms by (simp add: is_aligned_with_current_def Let_def)

lemma current_miss:
  assumes "current_cache c (long, lat) = None"
  shows "is_aligned_with_current E c long lat dx dy =
     (let d = retrieve_angle E (round_longitude (grid_to_longitude long))
                (round_latitude (grid_to_latitude lat))
      in (direction_test d (movement_angle dx dy),
          c\<lparr>current_cache := (current_cache c)((long, lat) \<mapsto> d)\<rparr>))"
  using assms by (simp add: is_aligned_with_current_def Let_def)

lemma within_25_of_200:
  assumes "0 \<le> a" "a < 360"
  shows "within_25_degrees 200 a \<longleftrightarrow> 175 \<le> a \<and> a \<le> 225"
proof -
  have "py_fmod (200 - 25) 360 = 175" "py_fmod (200 + 25) 360 = 225"
    by (simp_all add: py_fmod_def)
  then have "union_of_wrapped_ranges 200 a = (175 \<le> a \<and> a \<le> 225)"
    unfolding union_of_wrapped_ranges_def Let_def by auto
  then show ?thesis using union_of_wrapped_ranges_iff [OF assms, of 200] by simp
qed

lemma double_123: "to_double 12.3 = 3462142213541069 / 2 ^ 48"
  using to_double_up [of 3 "12.3"] by (simp add: py_round_def)

lemma within_tolerance_123: "within_tolerance (25 - 1 / 2 ^ 40) (to_double 12.3) 0"
proof -
  have "\<bar>of_int 0 - 3462142213541069 / 2 ^ 48 + 360 * of_int 0\<bar> \<le> (25 - 1 / 2 ^ 40 :: real)"
    by simp
  then show ?thesis unfolding within_tolerance_def double_123 by blast
qed

lemma outside_tolerance_123: "\<not> within_tolerance (25 + 1 / 2 ^ 40) (to_double 12.3) 45"
proof -
  have "py_fmod (3462142213541069 / 2 ^ 48) 360 = 3462142213541069 / 2 ^ 48"
    using py_fmod_unique [of "3462142213541069 / 2 ^ 48" 360 0] by simp
  then show ?thesis
    unfolding double_123
    using within_tolerance_cases [of 45 "25 + 1 / 2 ^ 40" "3462142213541069 / 2 ^ 48"] by simp
qed

lemma not_short_123: "\<not> short_bearing (to_double 12.3)"
proof
  assume "short_bearing (to_double 12.3)"
  then have "(3462142213541069 / 2 ^ 48 :: real) * 2 ^ 40 =
      of_int \<lfloor>(3462142213541069 / 2 ^ 48 :: real) * 2 ^ 40\<rfloor>"
    unfolding double_123 by (simp only: short_bearing_def)
  then show False by simp
qed

lemma small_123: "\<bar>to_double 12.3\<bar> \<le> 3600"
  unfolding double_123 by simp

text \<open>
  Claim C4, amended. The direction that is tested is the direction the cache holds for the
  cell and, when the cache holds none, the answer of the provider at the cell's quantized
  longitude and latitude, which is then stored in the cache; the angle that is tested is
  the movement angle, an integer from 0 to 359; the result is 0 or 1. For a direction of
  magnitude at most 3600 the result is 1 when some full turn brings the angle within
  \<open>25 - 2 ^ -40\<close> of the direction, and only when some full turn brings it within
  \<open>25 + 2 ^ -40\<close>. For a direction of magnitude at most 4096 with at most 40 binary digits
  after the point (every direction in whole degrees is such) the result is 1 exactly when
  some full turn brings the angle within 25 of the direction. For a direction of 10
  degrees the aligned angles are those from 345 to 359 and from 0 to 35; 344 and 36 are not
  aligned.
\<close>

theorem alignment_of_sampled_direction:
  "(wind_cache c (long, lat) = Some d \<longrightarrow>
      is_aligned_with_wind E c long lat dx dy = (direction_test d (movement_angle dx dy), c)) \<and>
   (wind_cache c (long, lat) = None \<longrightarrow>
      is_aligned_with_wind E c long lat dx dy =
        (let s = retrieve_wind_direction E (round_longitude (grid_to_longitude long))
                   (round_latitude (grid_to_latitude lat))
         in (direction_test s (movement_angle dx dy),
             c\<lparr>wind_cache := (wind_cache c)((long, lat) \<mapsto> s)\<rparr>))) \<and>
   (current_cache c (long, lat) = Some d \<longrightarrow>
      is_aligned_with_current E c long lat dx dy = (direction_test d (movement_angle dx dy), c)) \<and>
   (current_cache c (long, lat) = None \<longrightarrow>
      is_aligned_with_current E c long lat dx dy =
        (let s = retrieve_angle E (round_longitude (grid_to_longitude long))
                   (round_latitude (grid_to_latitude lat))
         in (direction_test s (movement_angle dx dy),
             c\<lparr>current_cache := (current_cache c)((long, lat) \<mapsto> s)\<rparr>))) \<and>
   0 \<le> movement_angle dx dy \<and> movement_angle dx dy < 360 \<and>
   (direction_test d a = 0 \<or> direction_test d a = 1) \<and>
   (0 \<le> a \<and> a < 360 \<and> short_bearing d \<longrightarrow>
      (direction_test d a = 1 \<longleftrightarrow> within_25_degrees d a)) \<and>
   (0 \<le> a \<and> a < 360 \<and> \<bar>d\<bar> \<le> 3600 \<and> within_tolerance (25 - 1 / 2 ^ 40) d a \<longrightarrow>
      direction_test d a = 1) \<and>
   (0 \<le> a \<and> a < 360 \<and> \<bar>d\<bar> \<le> 3600 \<and> direction_test d a = 1 \<longrightarrow>
      within_tolerance (25 + 1 / 2 ^ 40) d a) \<and>
   direction_test 10 a = (if 345 \<le> a \<or> a \<le> 35 then 1 else 0)"
proof -
  have wh: "wind_cache c (long, lat) = Some d \<longrightarrow>
      is_aligned_with_wind E c long lat dx dy = (direction_test d (movement_angle dx dy), c)"
    by (simp add: wind_hit)
  have wm: "wind_cache c (long, lat) = None \<longrightarrow>
      is_aligned_with_wind E c long lat dx dy =
        (let s = retrieve_wind_direction E (round_longitude (grid_to_longitude long))
                   (round_latitude (grid_to_latitude lat))
         in (direction_test s (movement_angle dx dy),
             c\<lparr>wind_cache := (wind_cache c)((long, lat) \<mapsto> s)\<rparr>))"
    using wind_miss [of c long lat E dx dy] by blast
  have ch: "current_cache c (long, lat) = Some d \<longrightarrow>
      is_aligned_with_current E c long lat dx dy = (direction_test d (movement_angle dx dy), c)"
    by (simp add: current_hit)
  have cm: "current_cache c (long, lat) = None \<longrightarrow>
      is_aligned_with_current E c long lat dx dy =
        (let s = retrieve_angle E (round_longitude (grid_to_longitude long))
                   (round_latitude (grid_to_latitude lat))
         in (direction_test s (movement_angle dx dy),
             c\<lparr>current_cache := (current_cache c)((long, lat) \<mapsto> s)\<rparr>))"
    using current_miss [of c long lat E dx dy] by blast
  have sb: "0 \<le> a \<and> a < 360 \<and> short_bearing d \<longrightarrow>
      (direction_test d a = 1 \<longleftrightarrow> within_25_degrees d a)"
    using direction_test_short [of d a] by blast
  have b1: "0 \<le> a \<and> a < 360 \<and> \<bar>d\<bar> \<le> 3600 \<and> within_tolerance (25 - 1 / 2 ^ 40) d a \<longrightarrow>
      direction_test d a = 1"
    using direction_test_band(1) [of d a] by blast
  have b2: "0 \<le> a \<and> a < 360 \<and> \<bar>d\<bar> \<le> 3600 \<and> direction_test d a = 1 \<longrightarrow>
      within_tolerance (25 + 1 / 2 ^ 40) d a"
    using direction_test_band(2) [of d a] by blast
  show ?thesis
    using wh wm ch cm movement_angle_range [of dx dy] direction_test_01 [of d a] sb b1 b2
      ten_degrees [of a]
    by blast
qed

theorem alignment_of_sampled_direction_witness:
  "wind_cache wind_from_10 (20, 100) = Some 10 \<and>
   current_cache wind_from_10 (20, 100) = Some 10 \<and>
   is_aligned_with_wind open_sea wind_from_10 20 100 1 0 = (1, wind_from_10) \<and>
   is_aligned_with_current open_sea wind_from_10 20 100 1 1 = (0, wind_from_10) \<and>
   wind_cache no_caches (20, 100) = None \<and>
   current_cache no_caches (20, 100) = None \<and>
   is_aligned_with_wind open_sea no_caches 20 100 1 1 =
     (0, no_caches\<lparr>wind_cache := [(20, 100) \<mapsto> 10]\<rparr>) \<and>
   short_bearing 200 \<and> within_25_degrees 200 225 \<and>
   is_aligned_with_current open_sea no_caches 20 100 (- 1) (- 1) =
     (1, no_caches\<lparr>current_cache := [(20, 100) \<mapsto> 200]\<rparr>) \<and>
   \<not> short_bearing (to_double 12.3) \<and>
   within_tolerance (25 - 1 / 2 ^ 40) (to_double 12.3) 0 \<and> direction_test (to_double 12.3) 0 = 1 \<and>
   \<not> within_tolerance (25 + 1 / 2 ^ 40) (to_double 12.3) 45 \<and> direction_test (to_double 12.3) 45 = 0"
proof -
  have h: "wind_cache wind_from_10 (20, 100) = Some 10"
    "current_cache wind_from_10 (20, 100) = Some 10"
    by (simp_all add: wind_from_10_def no_caches_def)
  have m: "wind_cache no_caches (20, 100) = None" "current_cache no_caches (20, 100) = None"
    by (simp_all add: no_caches_def)
  have e: "wind_cache no_caches = Map.empty" "current_cache no_caches = Map.empty"
    by (simp_all add: no_caches_def)
  have p: "retrieve_wind_direction open_sea x y = 10" "retrieve_angle open_sea x y = 200" for x y
    by (simp_all add: open_sea_def)
  have a: "within_25_degrees 200 225" by (simp add: within_25_of_200)
  have 1: "is_aligned_with_wind open_sea wind_from_10 20 100 1 0 = (1, wind_from_10)"
    using alignment_of_sampled_direction
      [where c = wind_from_10 and long = 20 and lat = 100 and d = 10 and E = open_sea
         and dx = 1 and dy = 0 and a = 0]
    by (simp add: h movement_angle_east)
  have 2: "is_aligned_with_current open_sea wind_from_10 20 100 1 1 = (0, wind_from_10)"
    using alignment_of_sampled_direction
      [where c = wind_from_10 and long = 20 and lat = 100 and d = 10 and E = open_sea
         and dx = 1 and dy = 1 and a = 45]
    by (simp add: h movement_angle_1_1)
  have 3: "is_aligned_with_wind open_sea no_caches 20 100 1 1 =
     (0, no_caches\<lparr>wind_cache := [(20, 100) \<mapsto> 10]\<rparr>)"
    using alignment_of_sampled_direction
      [where c = no_caches and long = 20 and lat = 100 and d = 10 and E = open_sea
         and dx = 1 and dy = 1 and a = 45]
    by (simp add: m e p movement_angle_1_1 Let_def)
  have 4: "is_aligned_with_current open_sea no_caches 20 100 (- 1) (- 1) =
     (1, no_caches\<lparr>current_cache := [(20, 100) \<mapsto> 200]\<rparr>)"
    using alignment_of_sampled_direction
      [where c = no_caches and long = 20 and lat = 100 and d = 200 and E = open_sea
         and dx = "- 1" and dy = "- 1" and a = 225]
    by (simp add: m e p short_bearing_200 a movement_angle_m1_m1 Let_def)
  have 5: "direction_test (to_double 12.3) 0 = 1"
    using alignment_of_sampled_direction
      [where c = no_caches and long = 20 and lat = 100 and d = "to_double 12.3" and E = open_sea
         and dx = 1 and dy = 0 and a = 0]
      within_tolerance_123 small_123
    by simp
  have 6: "direction_test (to_double 12.3) 45 = 0"
    using alignment_of_sampled_direction
      [where c = no_caches and long = 20 and lat = 100 and d = "to_double 12.3" and E = open_sea
         and dx = 1 and dy = 0 and a = 45]
      outside_tolerance_123 small_123
    by auto
  show ?thesis
    using h m 1 2 3 4 5 6 short_bearing_200 a not_short_123 within_tolerance_123
      outside_tolerance_123
    by blast
qed

section \<open>Cost model: the blends and the discount\<close>

text \<open>Without rounding the two discounts compose to the factor 0.81.\<close>

lemma fscore_discount:
  "fst (calculate_fscore E c g cur nb goal fb sb wa ca) =
     (if wa = 1 then 0.9 else 1) * (if ca = 1 then 0.9 else 1) *
       fst (calculate_fscore E c g cur nb goal fb sb 0 0)"
  by (simp add: calculate_fscore_def Let_def case_prod_beta)

lemma double_09: "to_double 0.9 = 8106479329266893 / 2 ^ 53"
  using to_double_down [of 1 "0.9"] by (simp add: py_round_def)

lemma double_081: "to_double 0.81 = 7295831396340204 / 2 ^ 53"
  using to_double_down [of 1 "0.81"] by (simp add: py_round_def)

lemma double_03: "to_double 0.3 = 5404319552844595 / 2 ^ 54"
  using to_double_down [of 2 "0.3"] by (simp add: py_round_def)

lemma double_02: "to_double 0.2 = 3602879701896397 / 2 ^ 54"
  using to_double_down [of 3 "0.2"] by (simp add: py_round_def)

lemma double_1: "to_double 1 = 1"
  using to_double_of_int [of 1] by simp

lemma abs_triangle3: "\<bar>x + y + z\<bar> \<le> \<bar>x\<bar> + \<bar>y\<bar> + \<bar>z\<bar>" for x y z :: real
  by linarith

lemma discount_twice_error:
  "\<bar>fmul (fmul s (to_double 0.9)) (to_double 0.9) - 0.81 * s\<bar> \<le> \<bar>s\<bar> / 2 ^ 52"
proof -
  define c :: real where "c = 8106479329266893 / 2 ^ 53"
  define a where "a = to_double (s * c)"
  define r where "r = to_double (a * c)"
  define t where "t = \<bar>s\<bar>"
  have c0: "0 < c" by (simp add: c_def)
  have e1: "\<bar>a - s * c\<bar> \<le> t * c / 2 ^ 53"
    using to_double_error [of "s * c"] c0 by (simp add: a_def abs_mult t_def)
  have e2: "\<bar>r - a * c\<bar> \<le> \<bar>a\<bar> * c / 2 ^ 53"
    using to_double_error [of "a * c"] c0 by (simp add: r_def abs_mult)
  have "\<bar>a\<bar> \<le> \<bar>a - s * c\<bar> + \<bar>s * c\<bar>" by linarith
  also have "\<bar>s * c\<bar> = t * c" using c0 by (simp add: abs_mult t_def)
  finally have h1: "\<bar>a\<bar> \<le> t * c / 2 ^ 53 + t * c" using e1 by linarith
  have "\<bar>a\<bar> * c \<le> (t * c / 2 ^ 53 + t * c) * c"
    using h1 c0 by (intro mult_right_mono) simp_all
  then have "\<bar>a\<bar> * c / 2 ^ 53 \<le> (t * c / 2 ^ 53 + t * c) * c / 2 ^ 53"
    by (rule divide_right_mono) simp
  then have h2: "\<bar>r - a * c\<bar> \<le> (t * c / 2 ^ 53 + t * c) * c / 2 ^ 53"
    using e2 by linarith
  have "\<bar>(a - s * c) * c\<bar> = \<bar>a - s * c\<bar> * c" using c0 by (simp add: abs_mult)
  also have "\<dots> \<le> (t * c / 2 ^ 53) * c" using e1 c0 by (intro mult_right_mono) simp_all
  finally have h3: "\<bar>(a - s * c) * c\<bar> \<le> (t * c / 2 ^ 53) * c" .
  have h4: "\<bar>s * (c * c - 0.81)\<bar> = t * (c * c - 0.81)"
    by (simp add: abs_mult t_def c_def)
  have "r - 0.81 * s = (r - a * c) + (a - s * c) * c + s * (c * c - 0.81)"
    by (simp add: algebra_simps)
  then have "\<bar>r - 0.81 * s\<bar> \<le> \<bar>r - a * c\<bar> + \<bar>(a - s * c) * c\<bar> + \<bar>s * (c * c - 0.81)\<bar>"
    using abs_triangle3 [of "r - a * c" "(a - s * c) * c" "s * (c * c - 0.81)"] by simp
  then have "\<bar>r - 0.81 * s\<bar> \<le>
      (t * c / 2 ^ 53 + t * c) * c / 2 ^ 53 + (t * c / 2 ^ 53) * c + t * (c * c - 0.81)"
    using h2 h3 h4 by linarith
  also have "\<dots> = t * ((c / 2 ^ 53 + c) * c / 2 ^ 53 + (c / 2 ^ 53) * c + (c * c - 0.81))"
    by (simp add: algebra_simps)
  also have "\<dots> \<le> t * (1 / 2 ^ 52)"
  proof (rule mult_left_mono)
    show "(c / 2 ^ 53 + c) * c / 2 ^ 53 + (c / 2 ^ 53) * c + (c * c - 0.81) \<le> 1 / 2 ^ 52"
      by (simp add: c_def)
    show "0 \<le> t" by (simp add: t_def)
  qed
  finally have "\<bar>r - 0.81 * s\<bar> \<le> \<bar>s\<bar> / 2 ^ 52" by (simp add: t_def)
  then show ?thesis
    by (simp only: fmul_def double_09 r_def a_def c_def)
qed

lemma fscore_double_discount:
  "fst (calculate_fscore_double E c g cur nb goal fb sb wa ca) =
     (let f = fst (calculate_fscore_double E c g cur nb goal fb sb 0 0);
          f = (if wa = 1 then fmul f (to_double 0.9) else f)
      in if ca = 1 then fmul f (to_double 0.9) else f)"
  by (simp add: calculate_fscore_double_def Let_def case_prod_beta)

lemma fscore_double_cache:
  "snd (calculate_fscore_double E c g cur nb goal fb sb wa ca) =
     snd (calculate_fscore E c g cur nb goal fb sb wa ca)"
  by (simp add: calculate_fscore_double_def calculate_fscore_def Let_def case_prod_beta)

lemma euclidean_double_3: "euclidean_double (1, 1) (1, 4) = 3"
proof -
  have "to_double 9 = 9" using to_double_of_int [of 9] by simp
  moreover have "sqrt 9 = 3" by (rule real_sqrt_unique) simp_all
  moreover have "to_double 3 = 3" using to_double_of_int [of 3] by simp
  ultimately show ?thesis by (simp add: euclidean_double_def)
qed

lemma comfort_blend_value: "blend 0.3 0.2 1 0 3 5 = 3152519739159347 / 2 ^ 49"
proof -
  have t1: "fmul (to_double 0.3) 0 = 0" by (simp add: fmul_def to_double_def)
  have t2: "fmul (to_double 0.2) 3 = 1351079888211149 / 2 ^ 51"
    unfolding fmul_def double_02
    using to_double_down [of 1 "3602879701896397 / 2 ^ 54 * 3"] by (simp add: py_round_def)
  have t3: "fadd 0 (1351079888211149 / 2 ^ 51) = 1351079888211149 / 2 ^ 51"
    unfolding fadd_def using to_double_exact [of 1351079888211149 51] by simp
  have t4: "fmul (to_double 1) 5 = 5"
    unfolding fmul_def double_1 using to_double_of_int [of 5] by simp
  have t5: "fadd (1351079888211149 / 2 ^ 51) 5 = 3152519739159347 / 2 ^ 49"
    unfolding fadd_def
    using to_double_up [of 2 "1351079888211149 / 2 ^ 51 + 5"] by (simp add: py_round_def)
  show ?thesis unfolding blend_def t1 t2 t3 t4 t5 ..
qed

lemma discount_once_value:
  "fmul (3152519739159347 / 2 ^ 49) (to_double 0.9) = 5674535530486825 / 2 ^ 50"
  unfolding fmul_def double_09
  using to_double_up [of 2 "3152519739159347 / 2 ^ 49 * (8106479329266893 / 2 ^ 53)"]
  by (simp add: py_round_def)

lemma discount_twice_value:
  "fmul (5674535530486825 / 2 ^ 50) (to_double 0.9) = 5107081977438143 / 2 ^ 50"
  unfolding fmul_def double_09
  using to_double_up [of 2 "5674535530486825 / 2 ^ 50 * (8106479329266893 / 2 ^ 53)"]
  by (simp add: py_round_def)

lemma product_081_value:
  "fmul (to_double 0.81) (3152519739159347 / 2 ^ 49) = 5107081977438142 / 2 ^ 50"
  unfolding fmul_def double_081
  using to_double_up [of 2 "7295831396340204 / 2 ^ 53 * (3152519739159347 / 2 ^ 49)"]
  by (simp add: py_round_def)

lemma open_sea_base_score:
  "fst (calculate_fscore_double open_sea no_caches 0 (0, 0) (1, 1) (1, 4) True False wa ca) =
     (let f = 3152519739159347 / 2 ^ 49;
          f = (if wa = 1 then fmul f (to_double 0.9) else f)
      in if ca = 1 then fmul f (to_double 0.9) else f)"
proof -
  have h: "h_heuristic open_sea no_caches (1, 1) =
      (5, no_caches\<lparr>heuristic_cache := [(1, 1) \<mapsto> 5]\<rparr>)"
    by (simp add: h_heuristic_def no_caches_def open_sea_def Let_def)
  have b: "horizontal_buttons open_sea = (False, False, True)" by (simp add: open_sea_def)
  show ?thesis
    unfolding calculate_fscore_double_def h b euclidean_double_3
    by (simp only: Let_def prod.case if_True if_False comfort_blend_value fst_conv)
qed

lemma open_sea_score_unaligned:
  "fst (calculate_fscore_double open_sea no_caches 0 (0, 0) (1, 1) (1, 4) True False 0 0) =
     3152519739159347 / 2 ^ 49"
  unfolding open_sea_base_score by (simp add: Let_def)

lemma open_sea_score_aligned:
  "fst (calculate_fscore_double open_sea no_caches 0 (0, 0) (1, 1) (1, 4) True False 1 1) =
     5107081977438143 / 2 ^ 50"
  unfolding open_sea_base_score
  by (simp only: Let_def refl if_True discount_once_value discount_twice_value)

text \<open>
  Claim C7, as stated, fails on the program's floats. In the open sea with the comfort
  weighting, \<open>g = 0\<close>, neighbour \<open>(1, 1)\<close>, goal \<open>(1, 4)\<close> and a heuristic value of 5 the
  score without alignment is the double \<open>5.6\<close>, and with both alignments it is
  \<open>5107081977438143 / 2 ^ 50\<close> (printed \<^verbatim>\<open>4.5360000000000005\<close>): this is not 0.81 times the
  score without alignment, neither as a real number nor as the float product
  \<^verbatim>\<open>0.81 * 5.6\<close>, which is \<open>5107081977438142 / 2 ^ 50\<close> (printed \<^verbatim>\<open>4.536\<close>).
\<close>

theorem two_discounts_are_not_081:
  "fst (calculate_fscore_double open_sea no_caches 0 (0, 0) (1, 1) (1, 4) True False 0 0) =
     3152519739159347 / 2 ^ 49 \<and>
   fst (calculate_fscore_double open_sea no_caches 0 (0, 0) (1, 1) (1, 4) True False 1 1) =
     5107081977438143 / 2 ^ 50 \<and>
   fmul (to_double 0.81)
       (fst (calculate_fscore_double open_sea no_caches 0 (0, 0) (1, 1) (1, 4) True False 0 0)) =
     5107081977438142 / 2 ^ 50 \<and>
   fst (calculate_fscore_double open_sea no_caches 0 (0, 0) (1, 1) (1, 4) True False 1 1) \<noteq>
     0.81 * fst (calculate_fscore_double open_sea no_caches 0 (0, 0) (1, 1) (1, 4) True False 0 0)"
  unfolding open_sea_score_unaligned open_sea_score_aligned product_081_value by simp

text \<open>
  Claim C7, amended: the alignment discount is one rounded multiplication by the double
  nearest to 0.9 (\<open>8106479329266893 / 2 ^ 53\<close>) for each alignment flag that equals 1,
  applied to the score of the same inputs with both flags 0, the wind flag first. The
  score of a doubly aligned neighbour is therefore the base score multiplied twice, each
  product rounded, and it lies within \<open>2 ^ -52\<close> of the base score's magnitude from 0.81
  times the base score. The flags do not change the cache.
\<close>

theorem alignment_discount_is_two_rounded_products:
  "fst (calculate_fscore_double E c g cur nb goal fb sb wa ca) =
     (let f = fst (calculate_fscore_double E c g cur nb goal fb sb 0 0);
          f = (if wa = 1 then fmul f (to_double 0.9) else f)
      in if ca = 1 then fmul f (to_double 0.9) else f) \<and>
   fst (calculate_fscore_double E c g cur nb goal fb sb 1 1) =
     fmul (fmul (fst (calculate_fscore_double E c g cur nb goal fb sb 0 0)) (to_double 0.9))
       (to_double 0.9) \<and>
   \<bar>fst (calculate_fscore_double E c g cur nb goal fb sb 1 1) -
       0.81 * fst (calculate_fscore_double E c g cur nb goal fb sb 0 0)\<bar> \<le>
     \<bar>fst (calculate_fscore_double E c g cur nb goal fb sb 0 0)\<bar> / 2 ^ 52 \<and>
   snd (calculate_fscore_double E c g cur nb goal fb sb wa ca) =
     snd (calculate_fscore_double E c g cur nb goal fb sb 0 0) \<and>
   to_double 0.9 = 8106479329266893 / 2 ^ 53"
proof -
  have twice: "fst (calculate_fscore_double E c g cur nb goal fb sb 1 1) =
     fmul (fmul (fst (calculate_fscore_double E c g cur nb goal fb sb 0 0)) (to_double 0.9))
       (to_double 0.9)"
    by (subst fscore_double_discount) (simp add: Let_def)
  have near: "\<bar>fst (calculate_fscore_double E c g cur nb goal fb sb 1 1) -
       0.81 * fst (calculate_fscore_double E c g cur nb goal fb sb 0 0)\<bar> \<le>
     \<bar>fst (calculate_fscore_double E c g cur nb goal fb sb 0 0)\<bar> / 2 ^ 52"
    unfolding twice by (rule discount_twice_error)
  have cache: "snd (calculate_fscore_double E c g cur nb goal fb sb wa ca) =
     snd (calculate_fscore_double E c g cur nb goal fb sb 0 0)"
    by (simp add: calculate_fscore_double_def Let_def case_prod_beta)
  show ?thesis
    using fscore_double_discount [of E c g cur nb goal fb sb wa ca] twice near cache double_09
    by blast
qed

theorem alignment_discount_is_two_rounded_products_witness:
  "fst (calculate_fscore_double open_sea no_caches 0 (0, 0) (1, 1) (1, 4) True False 1 0) =
     5674535530486825 / 2 ^ 50 \<and>
   fst (calculate_fscore_double open_sea no_caches 0 (0, 0) (1, 1) (1, 4) True False 0 1) =
     5674535530486825 / 2 ^ 50 \<and>
   fst (calculate_fscore_double open_sea no_caches 0 (0, 0) (1, 1) (1, 4) True False 1 1) =
     5107081977438143 / 2 ^ 50"
proof -
  have a: "fst (calculate_fscore_double open_sea no_caches 0 (0, 0) (1, 1) (1, 4) True False 1 0) =
     5674535530486825 / 2 ^ 50"
    using alignment_discount_is_two_rounded_products
      [of open_sea no_caches 0 "(0, 0)" "(1, 1)" "(1, 4)" True False 1 0, THEN conjunct1]
    unfolding open_sea_score_unaligned
    by (simp only: Let_def refl if_True zero_neq_one if_False discount_once_value)
  have b: "fst (calculate_fscore_double open_sea no_caches 0 (0, 0) (1, 1) (1, 4) True False 0 1) =
     5674535530486825 / 2 ^ 50"
    using alignment_discount_is_two_rounded_products
      [of open_sea no_caches 0 "(0, 0)" "(1, 1)" "(1, 4)" True False 0 1, THEN conjunct1]
    unfolding open_sea_score_unaligned
    by (simp only: Let_def refl if_True zero_neq_one if_False discount_once_value)
  have c: "fst (calculate_fscore_double open_sea no_caches 0 (0, 0) (1, 1) (1, 4) True False 1 1) =
     5107081977438143 / 2 ^ 50"
    using alignment_discount_is_two_rounded_products
      [of open_sea no_caches 0 "(0, 0)" "(1, 1)" "(1, 4)" True False 1 1, THEN conjunct2, THEN conjunct1]
    unfolding open_sea_score_unaligned
    by (simp only: discount_once_value discount_twice_value)
  show ?thesis using a b c by blast
qed

text \<open>
  Claim C8: with the comfort weighting selected the cargo branch and the passenger branch
  of \<^verbatim>\<open>calculate_fscore\<close> compute the same score, and when comfort is the selected
  weighting (fuel and speed are not) both compute
  \<open>0.3 g + 0.2 euclidean + 1 heuristic\<close>.
\<close>

theorem comfort_cargo_equals_passenger:
  assumes "horizontal_buttons E = (b0, b1, True)"
  shows "calculate_fscore E c g cur nb goal True sb wa ca =
           calculate_fscore E c g cur nb goal False True wa ca \<and>
         (\<not> b0 \<and> \<not> b1 \<longrightarrow>
            calculate_fscore E c g cur nb goal True sb 0 0 =
              (0.3 * g + 0.2 * euclidean nb goal + 1 * fst (h_heuristic E c nb),
               snd (h_heuristic E c nb)) \<and>
            calculate_fscore E c g cur nb goal False True 0 0 =
              (0.3 * g + 0.2 * euclidean nb goal + 1 * fst (h_heuristic E c nb),
               snd (h_heuristic E c nb)))"
  using assms by (simp add: calculate_fscore_def Let_def case_prod_beta)

theorem comfort_cargo_equals_passenger_witness:
  "horizontal_buttons open_sea = (False, False, True) \<and>
   calculate_fscore open_sea no_caches 10 (0, 0) (1, 1) (1, 1) True False 0 0 =
     calculate_fscore open_sea no_caches 10 (0, 0) (1, 1) (1, 1) False True 0 0 \<and>
   fst (calculate_fscore open_sea no_caches 10 (0, 0) (1, 1) (1, 1) True False 0 0) = 8"
proof -
  have h: "horizontal_buttons open_sea = (False, False, True)" by (simp add: open_sea_def)
  have v: "fst (h_heuristic open_sea no_caches (1, 1)) = 5"
    by (simp add: h_heuristic_def no_caches_def open_sea_def Let_def)
  show ?thesis
    using h v comfort_cargo_equals_passenger [OF h, of no_caches 10 "(0, 0)" "(1, 1)" "(1, 1)" False 0 0]
    by (simp add: euclidean_def)
qed

text \<open>
  Claim C9: with neither profile flag set and no weighting selected the base score is
  \<open>g + euclidean neighbor goal\<close>, the heuristic is not consulted and the cache is left
  as it was; in every other configuration the base score is one of the three fixed
  blends of \<open>g\<close>, the distance and the heuristic value.
\<close>

theorem fallback_blend_only_without_profile_and_weighting:
  assumes "horizontal_buttons E = (b0, b1, b2)"
  shows "(\<not> fb \<and> \<not> sb \<and> \<not> b0 \<and> \<not> b1 \<and> \<not> b2 \<longrightarrow>
            calculate_fscore E c g cur nb goal fb sb 0 0 = (g + euclidean nb goal, c)) \<and>
         (fb \<or> sb \<or> b0 \<or> b1 \<or> b2 \<longrightarrow>
            (\<exists>t \<in> {(0.4, 0.2, 0.1), (0.3, 0.7, 0.1), (0.3, 0.2, 1)}.
               calculate_fscore E c g cur nb goal fb sb 0 0 =
                 (fst t * g + fst (snd t) * euclidean nb goal
                    + snd (snd t) * fst (h_heuristic E c nb),
                  snd (h_heuristic E c nb))))"
  using assms by (auto simp add: calculate_fscore_def Let_def case_prod_beta)

theorem fallback_blend_only_without_profile_and_weighting_witness:
  "calculate_fscore no_weighting no_caches 10 (0, 0) (1, 1) (1, 1) False False 0 0 = (10, no_caches) \<and>
   calculate_fscore no_weighting no_caches 10 (0, 0) (1, 1) (1, 1) True False 0 0 \<noteq> (10, no_caches)"
proof -
  have h: "horizontal_buttons no_weighting = (False, False, False)"
    by (simp add: no_weighting_def)
  have v: "fst (h_heuristic no_weighting no_caches (1, 1)) = 5"
    by (simp add: h_heuristic_def no_caches_def no_weighting_def open_sea_def Let_def)
  show ?thesis
    using v fallback_blend_only_without_profile_and_weighting [OF h, of False False no_caches 10 "(0, 0)" "(1, 1)" "(1, 1)"]
      fallback_blend_only_without_profile_and_weighting [OF h, of True False no_caches 10 "(0, 0)" "(1, 1)" "(1, 1)"]
    by (auto simp add: euclidean_def)
qed

text \<open>
  Claim C10: when one of the three weightings is selected, the result of
  \<^verbatim>\<open>calculate_fscore\<close> (score and cache) does not depend on the cargo and passenger
  flags.
\<close>

theorem selected_weighting_hides_profile:
  assumes "horizontal_buttons E = (b0, b1, b2)" and "b0 \<or> b1 \<or> b2"
  shows "calculate_fscore E c g cur nb goal fb sb wa ca =
           calculate_fscore E c g cur nb goal fb' sb' wa ca"
  using assms by (auto simp add: calculate_fscore_def Let_def case_prod_beta)

theorem selected_weighting_hides_profile_witness:
  "calculate_fscore open_sea no_caches 10 (0, 0) (1, 1) (9, 9) True False 1 0 =
     calculate_fscore open_sea no_caches 10 (0, 0) (1, 1) (9, 9) False False 1 0"
proof -
  have h: "horizontal_buttons open_sea = (False, False, True)" by (simp add: open_sea_def)
  show ?thesis by (rule selected_weighting_hides_profile [OF h]) simp
qed

section \<open>The start button and the checks before a search\<close>

lemma start_button_click_caches:
  "wind_cache (start_button_click c) = Map.empty \<and>
   current_cache (start_button_click c) = Map.empty \<and>
   heuristic_cache (start_button_click c) = Map.empty \<and>
   depth_cache (start_button_click c) = depth_cache c"
  by (simp add: start_button_click_def)

lemma silted_neighbors:
  "map fst (fst (get_neighbors silted (start_button_click after_first_search) (17, 99))) = [(17, 100)]"
  by (simp add: get_neighbors_def directions_def neighbor_step_def navigable_def
      is_black_pixel_def silted_def open_sea_def after_first_search_def start_button_click_def
      max_x_def max_y_def GRID_WIDTH_def GRID_HEIGHT_def GRID_SIZE_def MAP_POSITION_def BLACK_def
      is_aligned_with_wind_def is_aligned_with_current_def Let_def)

text \<open>
  Claim C2: a click on the start button clears all four caches, so that no sample of an
  earlier search is visible to the next one. The handler clears three of them; the depth
  cache keeps its entries. Here the caches hold samples for the cell \<open>(17, 100)\<close>; after
  the click the depth \<open>-60\<close> is still cached, and \<^verbatim>\<open>get_neighbors\<close> of the next search
  reports the cell navigable from it although the depth provider now answers 0.
\<close>

theorem depth_cache_survives_start_click:
  "wind_cache (start_button_click after_first_search) (17, 100) = None \<and>
   current_cache (start_button_click after_first_search) (17, 100) = None \<and>
   heuristic_cache (start_button_click after_first_search) (17, 100) = None \<and>
   depth_cache (start_button_click after_first_search) (17, 100) = Some (- 60) \<and>
   retrieve_depth silted 17 100 = 0 \<and>
   map fst (fst (get_neighbors silted (start_button_click after_first_search) (17, 99))) = [(17, 100)]"
  using silted_neighbors
  by (simp add: start_button_click_def after_first_search_def silted_def)

lemma calibration_corners: "longitude_to_grid (681167 / 10000) = 16" "latitude_to_grid 37.1 = 9"
  "longitude_to_grid (974167 / 10000) = 121" "latitude_to_grid 8.1 = 135"
  by (simp_all add: CoordConv_defs Let_def)

text \<open>
  Claim C3, as stated: a start or goal cell that fails the navigability test of
  \<^verbatim>\<open>get_neighbors\<close> is reported before the search and never reaches \<^verbatim>\<open>a_star\<close>. It fails
  for a start cell that is blocked and too shallow but not a land pixel: the manual mode
  hands it to \<^verbatim>\<open>a_star\<close>.
\<close>

theorem blocked_shallow_start_reaches_a_star:
  "manual_mode reef 68.1167 37.1 97.4167 8.1 = Inr ((16, 9), (121, 135)) \<and>
   (16, 9) \<in> blocks reef \<and> \<not> retrieve_depth reef 16 9 < - 48 \<and>
   \<not> navigable reef (retrieve_depth reef 16 9) 16 9"
  by (simp add: manual_mode_def validate_coordinates_def calibration_corners Let_def is_black_pixel_def
      max_x_def max_y_def GRID_WIDTH_def GRID_HEIGHT_def GRID_SIZE_def MAP_POSITION_def BLACK_def
      reef_def open_sea_def navigable_def)

text \<open>
  Claim C3, amended: in the manual input mode the cells handed to \<^verbatim>\<open>a_star\<close> are the
  resolved start and goal cells and neither is a land pixel; when the resolved start or
  goal cell is a land pixel an error is shown instead and \<^verbatim>\<open>a_star\<close> is not called.
\<close>

theorem manual_mode_rejects_land_pixels:
  "(manual_mode E slon slat elon elat = Inr (start, goal) \<longrightarrow>
      start = (longitude_to_grid slon, latitude_to_grid slat) \<and>
      goal = (longitude_to_grid elon, latitude_to_grid elat) \<and>
      \<not> is_black_pixel E (fst start) (snd start) \<and>
      \<not> is_black_pixel E (fst goal) (snd goal)) \<and>
   (is_black_pixel E (longitude_to_grid slon) (latitude_to_grid slat) \<or>
    is_black_pixel E (longitude_to_grid elon) (latitude_to_grid elat) \<longrightarrow>
      (\<exists>e. manual_mode E slon slat elon elat = Inl e))"
  by (auto simp: manual_mode_def Let_def case_prod_beta split: if_splits)

theorem manual_mode_rejects_land_pixels_witness:
  "manual_mode open_sea 68.1167 37.1 97.4167 8.1 = Inr ((16, 9), (121, 135)) \<and>
   \<not> is_black_pixel open_sea 16 9 \<and> \<not> is_black_pixel open_sea 121 135 \<and>
   is_black_pixel all_land 16 9 \<and>
   (\<exists>e. manual_mode all_land 68.1167 37.1 97.4167 8.1 = Inl e)"
proof -
  have a: "manual_mode open_sea 68.1167 37.1 97.4167 8.1 = Inr ((16, 9), (121, 135))"
    by (simp add: manual_mode_def validate_coordinates_def calibration_corners Let_def is_black_pixel_def
      max_x_def max_y_def GRID_WIDTH_def GRID_HEIGHT_def GRID_SIZE_def MAP_POSITION_def BLACK_def
      open_sea_def)
  have b: "is_black_pixel all_land 16 9"
    by (simp add: is_black_pixel_def all_land_def open_sea_def
        GRID_SIZE_def MAP_POSITION_def BLACK_def Let_def)
  show ?thesis
    using a b
      manual_mode_rejects_land_pixels [of open_sea "68.1167" "37.1" "97.4167" "8.1" "(16, 9)" "(121, 135)"]
      manual_mode_rejects_land_pixels [of all_land "68.1167" "37.1" "97.4167" "8.1"]
    by (simp add: calibration_corners)
qed

section \<open>The search: invariants and results\<close>

text \<open>
  What holds before every round of the loop: every cell of the open set has a
  \<^verbatim>\<open>g_score\<close>; the closed set is the set of the explored cells; every predecessor
  recorded in \<^verbatim>\<open>came_from\<close> is closed, and was closed before the cell it leads to.
\<close>

definition index_of :: "'a list \<Rightarrow> 'a \<Rightarrow> nat" where
  "index_of xs x = length (takeWhile (\<lambda>y. y \<noteq> x) xs)"

definition search_inv :: "a_state \<Rightarrow> bool" where
  "search_inv st \<longleftrightarrow>
     (\<forall>e \<in> set (open_set st). g_score st (snd (snd e)) \<noteq> None) \<and>
     closed_set st = set (explored_nodes st) \<and>
     (\<forall>n p. came_from st n = Some p \<longrightarrow>
        p \<in> closed_set st \<and>
        (n \<in> closed_set st \<longrightarrow>
           index_of (explored_nodes st) p < index_of (explored_nodes st) n))"

lemma index_of_append_mem: "x \<in> set xs \<Longrightarrow> index_of (xs @ ys) x = index_of xs x"
  by (simp add: index_of_def takeWhile_append1)

lemma index_of_less: "x \<in> set xs \<Longrightarrow> index_of xs x < length xs"
  unfolding index_of_def by (induction xs) auto

lemma index_of_fresh: "x \<notin> set xs \<Longrightarrow> index_of (xs @ [x]) x = length xs"
  unfolding index_of_def by (induction xs) auto

lemma search_inv_initial: "search_inv (initial_state c start goal)"
  by (simp add: search_inv_def initial_state_def)

lemma relax_neighbor_inv:
  assumes "search_inv st" and "current \<in> closed_set st" and "g_score st current \<noteq> None"
  shows "\<exists>st'. relax_neighbor E goal fb sb current (Inr st) nb = Inr st' \<and>
           search_inv st' \<and> closed_set st' = closed_set st \<and>
           explored_nodes st' = explored_nodes st \<and> g_score st' current \<noteq> None"
proof -
  obtain neighbor wa ca where nb: "nb = (neighbor, wa, ca)" by (cases nb) auto
  obtain g where g: "g_score st current = Some g" using assms(3) by auto
  show ?thesis
  proof (cases "neighbor \<in> closed_set st")
    case True
    then show ?thesis using assms by (simp add: relax_neighbor_def nb)
  next
    case False
    then have ne: "neighbor \<noteq> current" using assms(2) by auto
    show ?thesis
      using assms False ne g
      by (auto simp: relax_neighbor_def nb Let_def case_prod_beta search_inv_def
          split: option.splits)
  qed
qed

lemma foldl_relax_inv:
  assumes "search_inv st" and "current \<in> closed_set st" and "g_score st current \<noteq> None"
  shows "\<exists>st'. foldl (relax_neighbor E goal fb sb current) (Inr st) nbs = Inr st' \<and>
           search_inv st' \<and> closed_set st' = closed_set st \<and>
           explored_nodes st' = explored_nodes st"
  using assms
proof (induction nbs arbitrary: st)
  case Nil
  then show ?case by simp
next
  case (Cons nb nbs)
  from relax_neighbor_inv [OF Cons.prems, of E goal fb sb nb]
  obtain st1 where s: "relax_neighbor E goal fb sb current (Inr st) nb = Inr st1"
    "search_inv st1" "closed_set st1 = closed_set st" "explored_nodes st1 = explored_nodes st"
    "g_score st1 current \<noteq> None" by blast
  have "current \<in> closed_set st1" using s Cons.prems by simp
  from Cons.IH [OF s(2) this s(5)] s show ?case by auto
qed

lemma search_invD:
  "search_inv st \<Longrightarrow> e \<in> set (open_set st) \<Longrightarrow> g_score st (snd (snd e)) \<noteq> None"
  "search_inv st \<Longrightarrow> closed_set st = set (explored_nodes st)"
  "search_inv st \<Longrightarrow> came_from st n = Some p \<Longrightarrow> p \<in> closed_set st"
  "search_inv st \<Longrightarrow> came_from st n = Some p \<Longrightarrow> n \<in> closed_set st \<Longrightarrow>
     index_of (explored_nodes st) p < index_of (explored_nodes st) n"
  unfolding search_inv_def by blast+

lemma search_invI:
  assumes "\<And>e. e \<in> set (open_set st) \<Longrightarrow> g_score st (snd (snd e)) \<noteq> None"
    and "closed_set st = set (explored_nodes st)"
    and "\<And>n p. came_from st n = Some p \<Longrightarrow> p \<in> closed_set st"
    and "\<And>n p. came_from st n = Some p \<Longrightarrow> n \<in> closed_set st \<Longrightarrow>
           index_of (explored_nodes st) p < index_of (explored_nodes st) n"
  shows "search_inv st"
  unfolding search_inv_def using assms by blast

lemma search_inv_cong:
  assumes "open_set a = open_set b" and "g_score a = g_score b"
    and "closed_set a = closed_set b" and "explored_nodes a = explored_nodes b"
    and "came_from a = came_from b"
  shows "search_inv a = search_inv b"
  using assms by (simp add: search_inv_def)

lemma search_inv_close:
  assumes "search_inv st" and "cur \<notin> closed_set st"
  shows "search_inv (st\<lparr>closed_set := insert cur (closed_set st),
                         explored_nodes := explored_nodes st @ [cur]\<rparr>)"
proof (rule search_invI)
  let ?st = "st\<lparr>closed_set := insert cur (closed_set st),
                  explored_nodes := explored_nodes st @ [cur]\<rparr>"
  have cl: "closed_set st = set (explored_nodes st)" by (rule search_invD(2) [OF assms(1)])
  have fresh: "cur \<notin> set (explored_nodes st)" using assms(2) cl by simp
  show "g_score ?st (snd (snd e)) \<noteq> None" if "e \<in> set (open_set ?st)" for e
    using that search_invD(1) [OF assms(1), of e] by simp
  show "closed_set ?st = set (explored_nodes ?st)" using cl by simp
  show "p \<in> closed_set ?st" if "came_from ?st n = Some p" for n p
    using that search_invD(3) [OF assms(1), of n p] by simp
  show "index_of (explored_nodes ?st) p < index_of (explored_nodes ?st) n"
    if np: "came_from ?st n = Some p" and n: "n \<in> closed_set ?st" for n p
  proof -
    have np': "came_from st n = Some p" using np by simp
    have p: "p \<in> set (explored_nodes st)"
      using search_invD(3) [OF assms(1) np'] cl by simp
    show ?thesis
    proof (cases "n \<in> set (explored_nodes st)")
      case True
      then have "index_of (explored_nodes st) p < index_of (explored_nodes st) n"
        using search_invD(4) [OF assms(1) np'] cl by simp
      then show ?thesis using True p by (simp add: index_of_append_mem)
    next
      case False
      then have "n = cur" using n cl by simp
      then show ?thesis
        using p fresh by (simp add: index_of_append_mem index_of_fresh index_of_less)
    qed
  qed
qed

lemma search_inv_open_subset:
  assumes "search_inv st" and "set os \<subseteq> set (open_set st)"
  shows "search_inv (st\<lparr>open_set := os\<rparr>)"
proof (rule search_invI)
  show "g_score (st\<lparr>open_set := os\<rparr>) (snd (snd e)) \<noteq> None"
    if "e \<in> set (open_set (st\<lparr>open_set := os\<rparr>))" for e
    using that assms(2) search_invD(1) [OF assms(1), of e] by auto
  show "closed_set (st\<lparr>open_set := os\<rparr>) = set (explored_nodes (st\<lparr>open_set := os\<rparr>))"
    using search_invD(2) [OF assms(1)] by simp
  show "p \<in> closed_set (st\<lparr>open_set := os\<rparr>)"
    if "came_from (st\<lparr>open_set := os\<rparr>) n = Some p" for n p
    using that search_invD(3) [OF assms(1), of n p] by simp
  show "index_of (explored_nodes (st\<lparr>open_set := os\<rparr>)) p
          < index_of (explored_nodes (st\<lparr>open_set := os\<rparr>)) n"
    if "came_from (st\<lparr>open_set := os\<rparr>) n = Some p"
      and "n \<in> closed_set (st\<lparr>open_set := os\<rparr>)" for n p
    using that search_invD(4) [OF assms(1), of n p] by simp
qed

lemma a_star_step_inv:
  assumes "search_inv st" and "goal \<notin> closed_set st"
  shows "case a_star_step E goal fb sb m st of
           Inl (Open_set_empty st') \<Rightarrow> st' = st \<and> open_set st = []
         | Inl (Goal_popped st') \<Rightarrow>
             search_inv st' \<and> goal \<in> closed_set st' \<and> explored_nodes st' \<noteq> [] \<and>
             last (explored_nodes st') = goal
         | Inl (Raised e) \<Rightarrow> False
         | Inr st' \<Rightarrow> search_inv st' \<and> goal \<notin> closed_set st'"
proof (cases "open_set st")
  case Nil
  then show ?thesis by (simp add: a_star_step_def)
next
  case (Cons x xs)
  define least where "least = pq_min x xs"
  define cur where "cur = snd (snd least)"
  define st1 where "st1 = st\<lparr>open_set := remove1 least (x # xs)\<rparr>"
  have least_in: "least \<in> set (open_set st)"
    using pq_min_in [of x xs] by (simp add: Cons least_def)
  have inv1: "search_inv st1"
    unfolding st1_def
    by (rule search_inv_open_subset [OF assms(1)]) (use set_remove1_subset Cons in auto)
  have g_cur: "g_score st cur \<noteq> None"
    using search_invD(1) [OF assms(1) least_in] by (simp add: cur_def)
  show ?thesis
  proof (cases "cur \<in> closed_set st")
    case True
    then have "a_star_step E goal fb sb m st = Inr st1"
      by (simp add: a_star_step_def Cons Let_def least_def cur_def st1_def)
    then show ?thesis using inv1 assms(2) by (simp add: st1_def)
  next
    case False
    define st2 where "st2 =
      st1\<lparr>closed_set := insert cur (closed_set st1),
           explored_nodes := explored_nodes st1 @ [cur]\<rparr>"
    have inv2: "search_inv st2"
      unfolding st2_def by (rule search_inv_close [OF inv1]) (use False in \<open>simp add: st1_def\<close>)
    define st3 where "st3 =
      st2\<lparr>progress := ProgressBar_update (int (length (explored_nodes st2)))
                        (min (int (length (explored_nodes st2)) + 100) m)\<rparr>"
    have inv3: "search_inv st3"
      using inv2 search_inv_cong [of st3 st2] by (simp add: st3_def)
    show ?thesis
    proof (cases "cur = goal")
      case True
      have "a_star_step E goal fb sb m st = Inl (Goal_popped st3)"
        using False True
        by (simp add: a_star_step_def Cons Let_def case_prod_beta least_def
            cur_def st1_def st2_def st3_def)
      moreover have "goal \<in> closed_set st3" "explored_nodes st3 \<noteq> []"
        "last (explored_nodes st3) = goal"
        using True by (simp_all add: st3_def st2_def)
      ultimately show ?thesis using inv3 by simp
    next
      case ng: False
      define st5 where "st5 =
        st3\<lparr>visualization_counter := visualization_counter st3 + 1,
             cache := snd (get_neighbors E (cache st3) cur)\<rparr>"
      define nbs where "nbs = fst (get_neighbors E (cache st3) cur)"
      have unfold: "a_star_step E goal fb sb m st =
          (case foldl (relax_neighbor E goal fb sb cur) (Inr st5) nbs of
             Inl e \<Rightarrow> Inl (Raised e) | Inr s \<Rightarrow> Inr s)"
        using False ng
        by (simp add: a_star_step_def Cons Let_def case_prod_beta least_def
            cur_def st1_def st2_def st3_def st5_def nbs_def)
      have inv5: "search_inv st5"
        using inv3 search_inv_cong [of st5 st3] by (simp add: st5_def)
      have c5: "cur \<in> closed_set st5" by (simp add: st5_def st3_def st2_def)
      have g5: "g_score st5 cur \<noteq> None"
        using g_cur by (simp add: st5_def st3_def st2_def st1_def)
      from foldl_relax_inv [OF inv5 c5 g5, of E goal fb sb nbs]
      obtain st' where s: "foldl (relax_neighbor E goal fb sb cur) (Inr st5) nbs = Inr st'"
        "search_inv st'" "closed_set st' = closed_set st5" by blast
      have "closed_set st5 = insert cur (closed_set st)"
        by (simp add: st5_def st3_def st2_def st1_def)
      then have "goal \<notin> closed_set st'" using s(3) ng assms(2) by auto
      then show ?thesis using unfold s by simp
    qed
  qed
qed

lemma a_star_loop_inv:
  assumes "search_inv st" and "goal \<notin> closed_set st"
  shows "case a_star_loop E goal fb sb m st of
           Open_set_empty st' \<Rightarrow>
             search_inv st' \<and> open_set st' = [] \<and> goal \<notin> closed_set st'
         | Goal_popped st' \<Rightarrow>
             search_inv st' \<and> goal \<in> closed_set st' \<and> explored_nodes st' \<noteq> [] \<and>
             last (explored_nodes st') = goal
         | Raised e \<Rightarrow> False"
  using assms
proof (induction E goal fb sb m st rule: a_star_loop.induct)
  case (1 E goal fb sb m st)
  show ?case
  proof (cases "a_star_step E goal fb sb m st")
    case (Inl r)
    then have "a_star_loop E goal fb sb m st = r"
      by (subst a_star_loop.simps) simp
    then show ?thesis
      using a_star_step_inv [OF "1.prems", of E fb sb m] Inl "1.prems"
      by (cases r) auto
  next
    case (Inr st')
    then have e: "a_star_loop E goal fb sb m st = a_star_loop E goal fb sb m st'"
      by (subst a_star_loop.simps) simp
    have "search_inv st' \<and> goal \<notin> closed_set st'"
      using a_star_step_inv [OF "1.prems", of E fb sb m] Inr by simp
    then show ?thesis using "1.IH" [OF Inr] e by simp
  qed
qed

lemma reconstruct_path_ends:
  fixes r :: "cell \<Rightarrow> nat"
  assumes "\<forall>n p. cf n = Some p \<longrightarrow> p \<in> S \<and> (n \<in> S \<longrightarrow> r p < r n)" and "n \<in> S"
  shows "\<exists>path. reconstruct_path cf n acc = Some path"
  using assms(2)
proof (induction "r n" arbitrary: n acc rule: less_induct)
  case less
  show ?case
  proof (cases "cf n")
    case None
    then show ?thesis by (subst reconstruct_path.simps) simp
  next
    case (Some p)
    then have "p \<in> S" "r p < r n" using assms(1) less.prems by blast+
    from less.hyps [OF this(2) this(1), of "acc @ [n]"] Some
    show ?thesis by (subst reconstruct_path.simps) simp
  qed
qed

lemma search_inv_path_ends:
  assumes "search_inv st" and "n \<in> closed_set st"
  shows "\<exists>path. reconstruct_path (came_from st) n acc = Some path"
  by (rule reconstruct_path_ends
      [where S = "closed_set st" and r = "index_of (explored_nodes st)"])
    (use assms search_invD(3,4) [OF assms(1)] in blast)+

lemma a_star_with_returns:
  "\<exists>path explored st. a_star_with m E c start goal cargo passenger = Some (Inr ((path, explored), st)) \<and>
     explored = explored_nodes st \<and> set explored = closed_set st \<and>
     (path = None \<longleftrightarrow> goal \<notin> set explored) \<and>
     (path = None \<longrightarrow> open_set st = []) \<and>
     (path \<noteq> None \<longrightarrow> explored \<noteq> [] \<and> last explored = goal)"
proof -
  have init: "search_inv (initial_state c start goal)" "goal \<notin> closed_set (initial_state c start goal)"
    by (simp_all add: search_inv_initial) (simp add: initial_state_def)
  note loop = a_star_loop_inv [OF init, of E cargo passenger m]
  show ?thesis
  proof (cases "a_star_loop E goal cargo passenger m (initial_state c start goal)")
    case (Open_set_empty st)
    then show ?thesis using loop by (auto simp: a_star_with_def search_inv_def)
  next
    case (Goal_popped st)
    then have i: "search_inv st" "goal \<in> closed_set st" "explored_nodes st \<noteq> []"
      "last (explored_nodes st) = goal" using loop by simp_all
    from search_inv_path_ends [OF i(1) i(2), of "[]"]
    obtain path where "reconstruct_path (came_from st) goal [] = Some path" by blast
    then show ?thesis using Goal_popped i by (auto simp: a_star_with_def search_inv_def)
  next
    case (Raised e)
    then show ?thesis using loop by simp
  qed
qed

subsection \<open>The progress bar does not steer the search\<close>

definition erase :: "a_state \<Rightarrow> a_state" where
  "erase st = st\<lparr>progress := 0\<rparr>"

fun erase_stop :: "stop \<Rightarrow> stop" where
  "erase_stop (Open_set_empty st) = Open_set_empty (erase st)"
| "erase_stop (Goal_popped st) = Goal_popped (erase st)"
| "erase_stop (Raised e) = Raised e"

lemma erase_progress [simp]: "erase (st\<lparr>progress := p\<rparr>) = erase st"
  by (simp add: erase_def)

lemma erase_eqD: "erase s = erase t \<Longrightarrow> t = s\<lparr>progress := progress t\<rparr>"
proof -
  assume a: "erase s = erase t"
  have "t = (erase t)\<lparr>progress := progress t\<rparr>" by (simp add: erase_def)
  also have "\<dots> = (erase s)\<lparr>progress := progress t\<rparr>" using a by simp
  also have "\<dots> = s\<lparr>progress := progress t\<rparr>" by (simp add: erase_def)
  finally show ?thesis .
qed

lemma relax_erase:
  "relax_neighbor E goal fb sb cur (map_sum id erase acc) nb =
     map_sum id erase (relax_neighbor E goal fb sb cur acc nb)"
  by (cases acc)
    (auto simp: relax_neighbor_def erase_def Let_def case_prod_beta split: option.splits)

lemma foldl_relax_erase:
  "foldl (relax_neighbor E goal fb sb cur) (map_sum id erase acc) nbs =
     map_sum id erase (foldl (relax_neighbor E goal fb sb cur) acc nbs)"
  by (induction nbs arbitrary: acc) (simp_all add: relax_erase)

lemma a_star_step_progress:
  "map_sum erase_stop erase (a_star_step E goal fb sb m' (st\<lparr>progress := p\<rparr>)) =
   map_sum erase_stop erase (a_star_step E goal fb sb m st)"
proof (cases "open_set st")
  case Nil
  then show ?thesis by (simp add: a_star_step_def)
next
  case (Cons x xs)
  define cur where "cur = snd (snd (pq_min x xs))"
  define st2 where "st2 =
    st\<lparr>open_set := remove1 (pq_min x xs) (x # xs),
        closed_set := insert cur (closed_set st),
        explored_nodes := explored_nodes st @ [cur]\<rparr>"
  define nbs where "nbs = fst (get_neighbors E (cache st) cur)"
  define st5 where "st5 = (\<lambda>q.
    st2\<lparr>progress := q,
         visualization_counter := visualization_counter st + 1,
         cache := snd (get_neighbors E (cache st) cur)\<rparr>)"
  let ?run = "\<lambda>q. case foldl (relax_neighbor E goal fb sb cur) (Inr (st5 q)) nbs of
                    Inl e \<Rightarrow> Inl (Raised e) | Inr s \<Rightarrow> Inr s"
  have run: "map_sum erase_stop erase (?run q) = map_sum erase_stop erase (?run q')" for q q'
  proof -
    have "erase (st5 q) = erase (st5 q')" by (simp add: st5_def erase_def)
    then have "map_sum id erase (foldl (relax_neighbor E goal fb sb cur) (Inr (st5 q)) nbs)
        = map_sum id erase (foldl (relax_neighbor E goal fb sb cur) (Inr (st5 q')) nbs)"
      using foldl_relax_erase [of E goal fb sb cur "Inr (st5 q)" nbs]
        foldl_relax_erase [of E goal fb sb cur "Inr (st5 q')" nbs]
      by simp
    then show ?thesis
      by (cases "foldl (relax_neighbor E goal fb sb cur) (Inr (st5 q)) nbs";
          cases "foldl (relax_neighbor E goal fb sb cur) (Inr (st5 q')) nbs")
        simp_all
  qed
  show ?thesis
  proof (cases "cur \<in> closed_set st")
    case True
    then show ?thesis
      by (simp add: a_star_step_def Cons Let_def cur_def erase_def)
  next
    case False
    show ?thesis
    proof (cases "cur = goal")
      case True
      then show ?thesis
        using False
        by (simp add: a_star_step_def Cons Let_def case_prod_beta cur_def erase_def)
    next
      case ng: False
      have a: "a_star_step E goal fb sb m st =
          ?run (ProgressBar_update (int (length (explored_nodes st @ [cur])))
                 (min (int (length (explored_nodes st @ [cur])) + 100) m))"
        using False ng
        by (simp add: a_star_step_def Cons Let_def case_prod_beta cur_def st2_def st5_def nbs_def)
      have b: "a_star_step E goal fb sb m' (st\<lparr>progress := p\<rparr>) =
          ?run (ProgressBar_update (int (length (explored_nodes st @ [cur])))
                 (min (int (length (explored_nodes st @ [cur])) + 100) m'))"
        using False ng
        by (simp add: a_star_step_def Cons Let_def case_prod_beta cur_def st2_def st5_def nbs_def)
      show ?thesis unfolding a b by (rule run)
    qed
  qed
qed

lemma a_star_step_erase:
  assumes "erase s = erase t"
  shows "map_sum erase_stop erase (a_star_step E goal fb sb m s) =
         map_sum erase_stop erase (a_star_step E goal fb sb m' t)"
proof -
  have "t = s\<lparr>progress := progress t\<rparr>" using assms by (rule erase_eqD)
  then show ?thesis
    using a_star_step_progress [where E = E and goal = goal and fb = fb and sb = sb
        and m' = m' and st = s and p = "progress t" and m = m]
    by simp
qed

lemma a_star_loop_erase:
  assumes "erase s = erase t"
  shows "erase_stop (a_star_loop E goal fb sb m s) = erase_stop (a_star_loop E goal fb sb m' t)"
  using assms
proof (induction E goal fb sb m s arbitrary: t rule: a_star_loop.induct)
  case (1 E goal fb sb m s)
  note sim = a_star_step_erase [OF "1.prems", of E goal fb sb m m']
  show ?case
  proof (cases "a_star_step E goal fb sb m s")
    case (Inl r)
    then obtain r' where r': "a_star_step E goal fb sb m' t = Inl r'" "erase_stop r = erase_stop r'"
      using sim by (cases "a_star_step E goal fb sb m' t") auto
    have "a_star_loop E goal fb sb m s = r" using Inl by (subst a_star_loop.simps) simp
    moreover have "a_star_loop E goal fb sb m' t = r'" using r' by (subst a_star_loop.simps) simp
    ultimately show ?thesis using r' by simp
  next
    case (Inr s')
    then obtain t' where t': "a_star_step E goal fb sb m' t = Inr t'" "erase s' = erase t'"
      using sim by (cases "a_star_step E goal fb sb m' t") auto
    have "a_star_loop E goal fb sb m s = a_star_loop E goal fb sb m s'"
      using Inr by (subst a_star_loop.simps) simp
    moreover have "a_star_loop E goal fb sb m' t = a_star_loop E goal fb sb m' t'"
      using t' by (subst a_star_loop.simps) simp
    ultimately show ?thesis using "1.IH" [OF Inr t'(2)] by simp
  qed
qed

lemma a_star_with_max_nodes:
  "map_option (map_sum id fst) (a_star_with m E c start goal cargo passenger) =
   map_option (map_sum id fst) (a_star_with m' E c start goal cargo passenger)"
proof -
  let ?r = "a_star_loop E goal cargo passenger m (initial_state c start goal)"
  let ?r' = "a_star_loop E goal cargo passenger m' (initial_state c start goal)"
  have e: "erase_stop ?r = erase_stop ?r'"
    by (rule a_star_loop_erase) simp
  have f: "erase s = erase t \<Longrightarrow> explored_nodes s = explored_nodes t \<and> came_from s = came_from t" for s t
    by (drule erase_eqD) (metis a_state.select_convs a_state.surjective a_state.update_convs(11))
  show ?thesis
    using e by (cases ?r; cases ?r') (auto simp: a_star_with_def dest!: f split: option.splits)
qed

subsection \<open>Concrete runs\<close>

lemma all_land_black: "is_black_pixel all_land x y"
  by (simp add: is_black_pixel_def all_land_def open_sea_def BLACK_def Let_def)

lemma all_land_neighbor_step: "fst (neighbor_step all_land p (nbs, c) d) = nbs"
  by (simp add: neighbor_step_def navigable_def all_land_black Let_def case_prod_beta
      split: option.splits)

lemma all_land_foldl: "fst (foldl (neighbor_step all_land p) (nbs, c) ds) = nbs"
proof (induction ds arbitrary: c)
  case Nil
  then show ?case by simp
next
  case (Cons d ds)
  obtain c' where "neighbor_step all_land p (nbs, c) d = (nbs, c')"
    using all_land_neighbor_step [of p nbs c d]
    by (cases "neighbor_step all_land p (nbs, c) d") simp
  then show ?case using Cons [of c'] by simp
qed

lemma all_land_no_neighbors: "fst (get_neighbors all_land c p) = []"
  by (simp add: get_neighbors_def all_land_foldl)

lemma a_star_loop_stop: "a_star_step E goal fb sb m st = Inl r \<Longrightarrow> a_star_loop E goal fb sb m st = r"
  by (subst a_star_loop.simps) simp

lemma a_star_loop_next:
  "a_star_step E goal fb sb m st = Inr st' \<Longrightarrow>
     a_star_loop E goal fb sb m st = a_star_loop E goal fb sb m st'"
  by (subst a_star_loop.simps) simp

lemma enclosed_start_run:
  "\<exists>S. a_star_with m all_land no_caches (20, 100) (30, 100) False False =
          Some (Inr ((None, [(20, 100)]), S))"
proof -
  let ?init = "initial_state no_caches (20, 100) (30, 100)"
  have "\<exists>S1. a_star_step all_land (30, 100) False False m ?init = Inr S1 \<and>
          open_set S1 = [] \<and> explored_nodes S1 = [(20, 100)]"
    by (simp add: a_star_step_def initial_state_def Let_def case_prod_beta all_land_no_neighbors)
  then obtain S1 where s1: "a_star_step all_land (30, 100) False False m ?init = Inr S1"
    "open_set S1 = []" "explored_nodes S1 = [(20, 100)]" by blast
  have "a_star_step all_land (30, 100) False False m S1 = Inl (Open_set_empty S1)"
    using s1(2) by (simp add: a_star_step_def)
  then have "a_star_loop all_land (30, 100) False False m ?init = Open_set_empty S1"
    using a_star_loop_next [OF s1(1)] a_star_loop_stop by simp
  then show ?thesis using s1(3) by (simp add: a_star_with_def)
qed

lemma start_is_goal_run:
  "\<exists>S. a_star_with m open_sea no_caches (20, 100) (20, 100) True False =
          Some (Inr ((Some [(20, 100)], [(20, 100)]), S))"
proof -
  let ?init = "initial_state no_caches (20, 100) (20, 100)"
  have "\<exists>S1. a_star_step open_sea (20, 100) True False m ?init = Inl (Goal_popped S1) \<and>
          came_from S1 = Map.empty \<and> explored_nodes S1 = [(20, 100)]"
    by (simp add: a_star_step_def initial_state_def Let_def case_prod_beta)
  then obtain S1 where s1: "a_star_step open_sea (20, 100) True False m ?init = Inl (Goal_popped S1)"
    "came_from S1 = Map.empty" "explored_nodes S1 = [(20, 100)]" by blast
  have r: "reconstruct_path Map.empty (20, 100) [] = Some []"
    by (subst reconstruct_path.simps) simp
  show ?thesis
    using a_star_loop_stop [OF s1(1)] s1(2,3) r by (simp add: a_star_with_def)
qed

text \<open>
  Claim C6: \<^verbatim>\<open>a_star\<close> always returns, and never by an exception. When the goal is not
  among the explored cells at the end, the open set is exhausted and the returned pair
  is \<open>None\<close> with the list of explored cells; the pair holds \<open>None\<close> only in that case.
\<close>

theorem no_path_is_a_normal_return:
  "\<exists>path explored st.
     a_star E c start goal cargo passenger = Some (Inr ((path, explored), st)) \<and>
     explored = explored_nodes st \<and> set explored = closed_set st \<and>
     (goal \<notin> set explored \<longrightarrow> path = None \<and> open_set st = []) \<and>
     (path = None \<longrightarrow> goal \<notin> set explored)"
  using a_star_with_returns [of 10000 E c start goal cargo passenger]
  unfolding a_star_def by blast

theorem no_path_is_a_normal_return_witness:
  "map_option (map_sum id fst) (a_star all_land no_caches (20, 100) (30, 100) False False)
     = Some (Inr (None, [(20, 100)]))"
proof -
  obtain S where e: "a_star all_land no_caches (20, 100) (30, 100) False False =
      Some (Inr ((None, [(20, 100)]), S))"
    using enclosed_start_run [of 10000] unfolding a_star_def by blast
  obtain path explored st where
    r: "a_star all_land no_caches (20, 100) (30, 100) False False = Some (Inr ((path, explored), st))"
    and n: "(30, 100) \<notin> set explored \<longrightarrow> path = None \<and> open_set st = []"
    using no_path_is_a_normal_return [of all_land no_caches "(20, 100)" "(30, 100)" False False]
    by blast
  have "explored = [(20, 100)]" using e r by simp
  then have "path = None" using n by simp
  then show ?thesis using r \<open>explored = [(20, 100)]\<close> by simp
qed

subsection \<open>A run of two cells\<close>

lemma a_star_step_expand:
  assumes "open_set st = x # xs" and "cur = snd (snd (pq_min x xs))"
    and "cur \<notin> closed_set st" and "cur \<noteq> goal"
  shows "a_star_step E goal fb sb m st =
     (case foldl (relax_neighbor E goal fb sb cur)
        (Inr (st\<lparr>open_set := remove1 (pq_min x xs) (x # xs),
                  closed_set := insert cur (closed_set st),
                  explored_nodes := explored_nodes st @ [cur],
                  progress := ProgressBar_update (int (length (explored_nodes st @ [cur])))
                     (min (int (length (explored_nodes st @ [cur])) + 100) m),
                  visualization_counter := visualization_counter st + 1,
                  cache := snd (get_neighbors E (cache st) cur)\<rparr>))
        (fst (get_neighbors E (cache st) cur)) of
        Inl e \<Rightarrow> Inl (Raised e)
      | Inr s \<Rightarrow> Inr s)"
  using assms by (simp add: a_star_step_def Let_def case_prod_beta)

lemma foldl_relax_all_closed:
  assumes "\<forall>nb \<in> set nbs. fst nb \<in> closed_set st"
  shows "foldl (relax_neighbor E goal fb sb cur) (Inr st) nbs = Inr st"
  using assms by (induction nbs) (auto simp: relax_neighbor_def case_prod_beta)

lemma neighbor_step_candidates:
  "fst ` set (fst (neighbor_step E p acc d))
     \<subseteq> fst ` set (fst acc) \<union> ({(fst p + fst d, snd p + snd d)} - blocks E)"
  by (auto simp: neighbor_step_def navigable_def Let_def case_prod_beta split: option.splits if_splits)

lemma foldl_neighbor_step_candidates:
  "fst ` set (fst (foldl (neighbor_step E p) acc ds))
     \<subseteq> fst ` set (fst acc) \<union> ((\<lambda>d. (fst p + fst d, snd p + snd d)) ` set ds - blocks E)"
proof (induction ds arbitrary: acc)
  case Nil
  then show ?case by simp
next
  case (Cons d ds)
  show ?case
    using Cons [of "neighbor_step E p acc d"] neighbor_step_candidates [of E p acc d]
    by auto
qed

lemma get_neighbors_candidates:
  "fst ` set (fst (get_neighbors E c p))
     \<subseteq> (\<lambda>d. (fst p + fst d, snd p + snd d)) ` set directions - blocks E"
  using foldl_neighbor_step_candidates [of E p "([], c)" directions]
  by (simp add: get_neighbors_def)

lemma channel_second_cell:
  assumes "nb \<in> set (fst (get_neighbors channel c (21, 100)))"
  shows "fst nb = (20, 100)"
proof -
  let ?cand = "(\<lambda>d. (fst (21 :: int, 100 :: int) + fst d, snd (21 :: int, 100 :: int) + snd d))
                 ` set directions"
  from assms have "fst nb \<in> fst ` set (fst (get_neighbors channel c (21, 100)))"
    by (rule imageI)
  then have mn: "fst nb \<in> ?cand - blocks channel"
    by (rule subsetD [OF get_neighbors_candidates])
  have m: "fst nb \<in> ?cand" using mn by (rule DiffD1)
  have n: "fst nb \<notin> blocks channel" using mn unfolding Diff_iff by (rule conjunct2)
  have k: "(21, 100) \<notin> ?cand"
    by (simp add: directions_def)
  have "blocks channel = - {(20, 100), (21, 100)}" by (simp add: channel_def)
  then have "fst nb = (20, 100) \<or> fst nb = (21, 100)"
    using n by simp
  then show ?thesis
  proof
    assume "fst nb = (20, 100)"
    then show ?thesis .
  next
    assume "fst nb = (21, 100)"
    then have "(21, 100) \<in> ?cand" using m by simp
    then show ?thesis using k by (rule notE [rotated])
  qed
qed

lemma channel_first_cell:
  "map fst (fst (get_neighbors channel no_caches (20, 100))) = [(21, 100)]"
  by (simp add: get_neighbors_def directions_def neighbor_step_def navigable_def
      is_black_pixel_def channel_def open_sea_def no_caches_def
      max_x_def max_y_def GRID_WIDTH_def GRID_HEIGHT_def GRID_SIZE_def MAP_POSITION_def BLACK_def
      is_aligned_with_wind_def is_aligned_with_current_def Let_def)

lemma channel_run:
  "\<exists>S. a_star_with m channel no_caches (20, 100) (22, 100) False False =
          Some (Inr ((None, [(20, 100), (21, 100)]), S))"
proof -
  let ?init = "initial_state no_caches (20, 100) (22, 100)"
  obtain wa ca where nbs: "fst (get_neighbors channel no_caches (20, 100)) = [((21, 100), wa, ca)]"
    using channel_first_cell
    by (cases "fst (get_neighbors channel no_caches (20, 100))") auto
  have "\<exists>S1 e. a_star_step channel (22, 100) False False m ?init = Inr S1 \<and>
          open_set S1 = [e] \<and> snd (snd e) = (21, 100) \<and> closed_set S1 = {(20, 100)} \<and>
          explored_nodes S1 = [(20, 100)]"
    by (subst a_star_step_expand [where x = "(0, 0, (20, 100))" and xs = "[]" and cur = "(20, 100)"])
      (simp_all add: initial_state_def nbs relax_neighbor_def Let_def case_prod_beta)
  then obtain S1 e where s1: "a_star_step channel (22, 100) False False m ?init = Inr S1"
    "open_set S1 = [e]" "snd (snd e) = (21, 100)" "closed_set S1 = {(20, 100)}"
    "explored_nodes S1 = [(20, 100)]" by blast
  let ?S1' = "S1\<lparr>open_set := remove1 (pq_min e []) [e],
        closed_set := insert (21, 100) (closed_set S1),
        explored_nodes := explored_nodes S1 @ [(21, 100)],
        progress := ProgressBar_update (int (length (explored_nodes S1 @ [(21, 100)])))
           (min (int (length (explored_nodes S1 @ [(21, 100)])) + 100) m),
        visualization_counter := visualization_counter S1 + 1,
        cache := snd (get_neighbors channel (cache S1) (21, 100))\<rparr>"
  have "\<forall>nb \<in> set (fst (get_neighbors channel (cache S1) (21, 100))). fst nb \<in> closed_set ?S1'"
    using channel_second_cell s1(4) by simp
  then have "foldl (relax_neighbor channel (22, 100) False False (21, 100)) (Inr ?S1')
      (fst (get_neighbors channel (cache S1) (21, 100))) = Inr ?S1'"
    by (rule foldl_relax_all_closed)
  then have "a_star_step channel (22, 100) False False m S1 = Inr ?S1'"
    by (subst a_star_step_expand [where x = e and xs = "[]" and cur = "(21, 100)"])
      (use s1 in simp_all)
  then have "\<exists>S2. a_star_step channel (22, 100) False False m S1 = Inr S2 \<and>
          open_set S2 = [] \<and> explored_nodes S2 = [(20, 100), (21, 100)]"
    using s1 by simp
  then obtain S2 where s2: "a_star_step channel (22, 100) False False m S1 = Inr S2"
    "open_set S2 = []" "explored_nodes S2 = [(20, 100), (21, 100)]" by blast
  have "a_star_step channel (22, 100) False False m S2 = Inl (Open_set_empty S2)"
    using s2(2) by (simp add: a_star_step_def)
  then have "a_star_loop channel (22, 100) False False m ?init = Open_set_empty S2"
    using a_star_loop_next [OF s1(1)] a_star_loop_next [OF s2(1)] a_star_loop_stop by simp
  then show ?thesis using s2(3) by (simp add: a_star_with_def)
qed

subsection \<open>A search that closes every reachable cell\<close>

text \<open>
  Where every grid cell is deep water on the display and every depth the provider or
  the cache gives is below the threshold, \<^verbatim>\<open>get_neighbors\<close> returns every neighbouring
  grid cell outside the blocked set.
\<close>

definition depth_ok :: "caches \<Rightarrow> bool" where
  "depth_ok c \<longleftrightarrow> (\<forall>k d. depth_cache c k = Some d \<longrightarrow> d < - 48)"

definition clear_water :: "env \<Rightarrow> bool" where
  "clear_water E \<longleftrightarrow>
     (\<forall>x y. retrieve_depth E x y < - 48) \<and>
     (\<forall>x y. (x, y) \<in> grid_cells \<longrightarrow> \<not> is_black_pixel E x y)"

definition shift :: "cell \<Rightarrow> int \<times> int \<Rightarrow> cell" where
  "shift p d = (fst p + fst d, snd p + snd d)"

lemma aligned_wind_depth: "depth_cache (snd (is_aligned_with_wind E c long lat dx dy)) = depth_cache c"
  by (simp add: is_aligned_with_wind_def Let_def split: option.splits)

lemma aligned_current_depth:
  "depth_cache (snd (is_aligned_with_current E c long lat dx dy)) = depth_cache c"
  by (simp add: is_aligned_with_current_def Let_def split: option.splits)

lemma depth_okI: "depth_cache c' = depth_cache c \<Longrightarrow> depth_ok c \<Longrightarrow> depth_ok c'"
  by (simp add: depth_ok_def)

lemma depth_ok_insert:
  "depth_ok c \<Longrightarrow> v < - 48 \<Longrightarrow> depth_ok (c\<lparr>depth_cache := (depth_cache c)(k \<mapsto> v)\<rparr>)"
  unfolding depth_ok_def by (metis caches.select_convs(4) caches.surjective caches.update_convs(4) fun_upd_apply option.inject)

lemma neighbor_step_clear:
  assumes "clear_water E" and "depth_ok c"
  shows "depth_ok (snd (neighbor_step E p (nbs, c) d)) \<and>
         set nbs \<subseteq> set (fst (neighbor_step E p (nbs, c) d)) \<and>
         (shift p d \<in> grid_cells - blocks E \<longrightarrow>
            shift p d \<in> fst ` set (fst (neighbor_step E p (nbs, c) d)))"
proof (cases "shift p d \<in> grid_cells")
  case False
  then have "neighbor_step E p (nbs, c) d = (nbs, c)"
    by (cases d) (auto simp: neighbor_step_def Let_def shift_def grid_cells_def)
  then show ?thesis using assms(2) False by simp
next
  case True
  define nx where "nx = fst p + fst d"
  define ny where "ny = snd p + snd d"
  have inb: "0 \<le> nx \<and> nx < max_x \<and> 0 \<le> ny \<and> ny < max_y"
    using True by (simp add: shift_def grid_cells_def nx_def ny_def)
  have nb: "\<not> is_black_pixel E nx ny"
    using assms(1) True by (simp add: clear_water_def shift_def nx_def ny_def)
  define depth where "depth = (case depth_cache c (nx, ny) of None \<Rightarrow> retrieve_depth E nx ny | Some v \<Rightarrow> v)"
  define c1 where "c1 = (case depth_cache c (nx, ny) of
      None \<Rightarrow> c\<lparr>depth_cache := (depth_cache c)((nx, ny) \<mapsto> retrieve_depth E nx ny)\<rparr> | Some v \<Rightarrow> c)"
  have d: "depth < - 48"
    using assms by (auto simp: depth_def clear_water_def depth_ok_def split: option.splits)
  have ok1: "depth_ok c1"
    using assms depth_ok_insert [of c "retrieve_depth E nx ny" "(nx, ny)"]
    by (auto simp: c1_def clear_water_def split: option.splits)
  show ?thesis
  proof (cases "(nx, ny) \<in> blocks E")
    case True
    then have "neighbor_step E p (nbs, c) d = (nbs, c1)"
      using inb
      by (cases d) (simp add: neighbor_step_def Let_def navigable_def nx_def ny_def c1_def
          split: option.splits)
    then show ?thesis using ok1 True by (simp add: shift_def nx_def ny_def)
  next
    case False
    define w where "w = is_aligned_with_wind E c1 nx ny (fst d) (snd d)"
    define u where "u = is_aligned_with_current E (snd w) nx ny (fst d) (snd d)"
    have "neighbor_step E p (nbs, c) d = (nbs @ [((nx, ny), fst w, fst u)], snd u)"
      using inb nb False d
      by (cases d) (simp add: neighbor_step_def Let_def navigable_def nx_def ny_def c1_def
          depth_def w_def u_def case_prod_beta split: option.splits)
    moreover have "depth_ok (snd u)"
      using ok1 depth_okI [of "snd u" c1]
      by (simp add: u_def w_def aligned_current_depth aligned_wind_depth)
    ultimately show ?thesis by (auto simp: shift_def nx_def ny_def)
  qed
qed

lemma foldl_neighbor_step_clear:
  assumes "clear_water E" and "depth_ok c"
  shows "depth_ok (snd (foldl (neighbor_step E p) (nbs, c) ds)) \<and>
         set nbs \<subseteq> set (fst (foldl (neighbor_step E p) (nbs, c) ds)) \<and>
         (\<forall>d \<in> set ds. shift p d \<in> grid_cells - blocks E \<longrightarrow>
            shift p d \<in> fst ` set (fst (foldl (neighbor_step E p) (nbs, c) ds)))"
  using assms(2)
proof (induction ds arbitrary: nbs c)
  case Nil
  then show ?case by simp
next
  case (Cons d ds)
  obtain nbs1 c1 where s: "neighbor_step E p (nbs, c) d = (nbs1, c1)"
    by (cases "neighbor_step E p (nbs, c) d") auto
  from neighbor_step_clear [OF assms(1) Cons.prems, of p nbs d] s
  have a: "depth_ok c1" "set nbs \<subseteq> set nbs1"
    "shift p d \<in> grid_cells - blocks E \<longrightarrow> shift p d \<in> fst ` set nbs1"
    by simp_all
  from Cons.IH [OF a(1), of nbs1]
  have b: "depth_ok (snd (foldl (neighbor_step E p) (nbs1, c1) ds))"
    "set nbs1 \<subseteq> set (fst (foldl (neighbor_step E p) (nbs1, c1) ds))"
    "\<forall>d \<in> set ds. shift p d \<in> grid_cells - blocks E \<longrightarrow>
            shift p d \<in> fst ` set (fst (foldl (neighbor_step E p) (nbs1, c1) ds))"
    by simp_all
  show ?case using a b s by auto
qed

lemma get_neighbors_clear:
  assumes "clear_water E" and "depth_ok c"
  shows "depth_ok (snd (get_neighbors E c p))"
    and "d \<in> set directions \<Longrightarrow> shift p d \<in> grid_cells - blocks E \<Longrightarrow>
           shift p d \<in> fst ` set (fst (get_neighbors E c p))"
  using foldl_neighbor_step_clear [OF assms, of p "[]" directions]
  by (simp_all add: get_neighbors_def)

text \<open>
  In such water the cells with a \<^verbatim>\<open>g_score\<close> are the closed cells and those of the open
  set, and every grid neighbour outside the blocked set of a closed cell has a
  \<^verbatim>\<open>g_score\<close>: when the open set is exhausted, the closed set holds every cell that can
  be reached.
\<close>

definition frontier_inv :: "env \<Rightarrow> cell \<Rightarrow> a_state \<Rightarrow> bool" where
  "frontier_inv E start st \<longleftrightarrow>
     start \<in> dom (g_score st) \<and>
     dom (g_score st) = closed_set st \<union> open_cells st \<and>
     closed_set st \<union> open_cells st \<subseteq> insert start (grid_cells - blocks E) \<and>
     (\<forall>c \<in> closed_set st. \<forall>d \<in> set directions.
        shift c d \<in> grid_cells - blocks E \<longrightarrow> shift c d \<in> dom (g_score st)) \<and>
     depth_ok (cache st)"

lemma h_heuristic_depth: "depth_cache (snd (h_heuristic E c n)) = depth_cache c"
  by (simp add: h_heuristic_def Let_def case_prod_beta split: option.splits)

lemma calculate_fscore_depth:
  "depth_cache (snd (calculate_fscore E c g cur nb goal fb sb wa ca)) = depth_cache c"
  by (simp add: calculate_fscore_def Let_def case_prod_beta h_heuristic_depth)

lemma relax_neighbor_frontier:
  assumes "dom (g_score st) = closed_set st \<union> open_cells st" and "current \<in> closed_set st"
  shows "\<exists>st'. relax_neighbor E goal fb sb current (Inr st) nb = Inr st' \<and>
           closed_set st' = closed_set st \<and>
           dom (g_score st') = closed_set st' \<union> open_cells st' \<and>
           dom (g_score st') = insert (fst nb) (dom (g_score st)) \<and>
           depth_cache (cache st') = depth_cache (cache st)"
proof -
  obtain neighbor wa ca where nb: "nb = (neighbor, wa, ca)" by (cases nb) auto
  obtain g where g: "g_score st current = Some g" using assms by auto
  show ?thesis
  proof (cases "neighbor \<in> closed_set st")
    case True
    then show ?thesis using assms by (auto simp: relax_neighbor_def nb)
  next
    case False
    show ?thesis
    proof (cases "g_score st neighbor")
      case None
      then show ?thesis
        using assms False g
        by (auto simp: relax_neighbor_def nb Let_def case_prod_beta open_cells_def
            calculate_fscore_depth)
    next
      case (Some gn)
      then have "neighbor \<in> dom (g_score st)" by auto
      then show ?thesis
        using assms False g Some
        by (auto simp: relax_neighbor_def nb Let_def case_prod_beta open_cells_def
            calculate_fscore_depth)
    qed
  qed
qed

lemma foldl_relax_frontier:
  assumes "dom (g_score st) = closed_set st \<union> open_cells st" and "current \<in> closed_set st"
  shows "\<exists>st'. foldl (relax_neighbor E goal fb sb current) (Inr st) nbs = Inr st' \<and>
           closed_set st' = closed_set st \<and>
           dom (g_score st') = closed_set st' \<union> open_cells st' \<and>
           dom (g_score st') = dom (g_score st) \<union> fst ` set nbs \<and>
           depth_cache (cache st') = depth_cache (cache st)"
  using assms
proof (induction nbs arbitrary: st)
  case Nil
  then show ?case by simp
next
  case (Cons nb nbs)
  from relax_neighbor_frontier [OF Cons.prems, of E goal fb sb nb]
  obtain st1 where s: "relax_neighbor E goal fb sb current (Inr st) nb = Inr st1"
    "closed_set st1 = closed_set st" "dom (g_score st1) = closed_set st1 \<union> open_cells st1"
    "dom (g_score st1) = insert (fst nb) (dom (g_score st))"
    "depth_cache (cache st1) = depth_cache (cache st)" by blast
  have "current \<in> closed_set st1" using s Cons.prems by simp
  from Cons.IH [OF s(3) this]
  obtain st' where t: "foldl (relax_neighbor E goal fb sb current) (Inr st1) nbs = Inr st'"
    "closed_set st' = closed_set st1" "dom (g_score st') = closed_set st' \<union> open_cells st'"
    "dom (g_score st') = dom (g_score st1) \<union> fst ` set nbs"
    "depth_cache (cache st') = depth_cache (cache st1)" by blast
  show ?case using s t by auto
qed

lemma frontier_invD:
  assumes "frontier_inv E start st"
  shows "start \<in> dom (g_score st)"
    and "dom (g_score st) = closed_set st \<union> open_cells st"
    and "closed_set st \<union> open_cells st \<subseteq> insert start (grid_cells - blocks E)"
    and "c \<in> closed_set st \<Longrightarrow> d \<in> set directions \<Longrightarrow>
           shift c d \<in> grid_cells - blocks E \<Longrightarrow> shift c d \<in> dom (g_score st)"
    and "depth_ok (cache st)"
  using assms unfolding frontier_inv_def by blast+

lemma frontier_invI:
  assumes "start \<in> dom (g_score st)"
    and "dom (g_score st) = closed_set st \<union> open_cells st"
    and "closed_set st \<union> open_cells st \<subseteq> insert start (grid_cells - blocks E)"
    and "\<And>c d. c \<in> closed_set st \<Longrightarrow> d \<in> set directions \<Longrightarrow>
           shift c d \<in> grid_cells - blocks E \<Longrightarrow> shift c d \<in> dom (g_score st)"
    and "depth_ok (cache st)"
  shows "frontier_inv E start st"
  unfolding frontier_inv_def using assms by blast

lemma frontier_inv_initial:
  "depth_ok c \<Longrightarrow> frontier_inv E start (initial_state c start goal)"
  by (rule frontier_invI) (simp_all add: initial_state_def open_cells_def)

lemma frontier_aux1:
  "D = C \<union> Op \<Longrightarrow> O1 \<subseteq> Op \<Longrightarrow> Op \<subseteq> insert cur O1 \<Longrightarrow> cur \<in> C \<Longrightarrow> D = C \<union> O1"
  by blast

lemma frontier_aux2:
  "D = C \<union> Op \<Longrightarrow> O1 \<subseteq> Op \<Longrightarrow> Op \<subseteq> insert cur O1 \<Longrightarrow> cur \<in> Op \<Longrightarrow>
     D = insert cur C \<union> O1"
  by blast

lemma frontier_aux3:
  "C \<union> Op \<subseteq> S \<Longrightarrow> O1 \<subseteq> Op \<Longrightarrow> C \<union> O1 \<subseteq> S"
  by blast

lemma frontier_aux4:
  "C' \<union> O' = D \<union> N \<Longrightarrow> D = C \<union> Op \<Longrightarrow> C \<union> Op \<subseteq> S \<Longrightarrow> N \<subseteq> G \<Longrightarrow> G \<subseteq> S
     \<Longrightarrow> C' \<union> O' \<subseteq> S"
  by blast

lemma a_star_step_frontier:
  assumes "clear_water E" and "frontier_inv E start st"
  shows "case a_star_step E goal fb sb m st of
           Inl (Open_set_empty st') \<Rightarrow> st' = st \<and> open_set st = []
         | Inl (Goal_popped st') \<Rightarrow> goal \<in> insert start (grid_cells - blocks E)
         | Inl (Raised e) \<Rightarrow> True
         | Inr st' \<Rightarrow> frontier_inv E start st'"
proof (cases "open_set st")
  case Nil
  then show ?thesis by (simp add: a_star_step_def)
next
  case (Cons x xs)
  note f = frontier_invD [OF assms(2)]
  define least where "least = pq_min x xs"
  define cur where "cur = snd (snd least)"
  define st1 where "st1 = st\<lparr>open_set := remove1 least (x # xs)\<rparr>"
  have least_in: "least \<in> set (open_set st)"
    using pq_min_in [of x xs] by (simp add: Cons least_def)
  then have cur_in: "cur \<in> open_cells st" by (auto simp: open_cells_def cur_def)
  have oc1: "open_cells st1 \<subseteq> open_cells st"
    using set_remove1_subset [of least "x # xs"] by (auto simp: open_cells_def st1_def Cons)
  have sub: "set (x # xs) \<subseteq> insert least (set (remove1 least (x # xs)))"
    by (metis insert_iff subsetI in_set_remove1)
  have oc2: "open_cells st \<subseteq> insert cur (open_cells st1)"
  proof
    fix n
    assume "n \<in> open_cells st"
    then obtain e where e: "e \<in> set (x # xs)" "n = snd (snd e)"
      unfolding open_cells_def Cons by blast
    then have "e = least \<or> e \<in> set (remove1 least (x # xs))" using sub by blast
    then show "n \<in> insert cur (open_cells st1)"
      using e(2) unfolding open_cells_def st1_def cur_def
      by (auto simp del: remove1.simps)
  qed
  show ?thesis
  proof (cases "cur \<in> closed_set st")
    case True
    then have e: "a_star_step E goal fb sb m st = Inr st1"
      by (simp add: a_star_step_def Cons Let_def least_def cur_def st1_def)
    have "frontier_inv E start st1"
    proof (rule frontier_invI)
      show "start \<in> dom (g_score st1)" using f(1) by (simp add: st1_def)
      have e1: "closed_set st1 = closed_set st" "g_score st1 = g_score st"
        by (simp_all add: st1_def)
      show "dom (g_score st1) = closed_set st1 \<union> open_cells st1"
        unfolding e1 by (rule frontier_aux1 [OF f(2) oc1 oc2 True])
      have e2: "closed_set st1 = closed_set st" by (simp add: st1_def)
      show "closed_set st1 \<union> open_cells st1 \<subseteq> insert start (grid_cells - blocks E)"
        unfolding e2 by (rule frontier_aux3 [OF f(3) oc1])
      show "shift c d \<in> dom (g_score st1)"
        if "c \<in> closed_set st1" "d \<in> set directions" "shift c d \<in> grid_cells - blocks E" for c d
        using f(4) [of c d] that by (simp add: st1_def)
      show "depth_ok (cache st1)" using f(5) by (simp add: st1_def)
    qed
    then show ?thesis using e by simp
  next
    case False
    show ?thesis
    proof (cases "cur = goal")
      case True
      have "a_star_step E goal fb sb m st = Inl (Goal_popped
          (st\<lparr>open_set := remove1 least (x # xs), closed_set := insert cur (closed_set st),
              explored_nodes := explored_nodes st @ [cur],
              progress := ProgressBar_update (int (length (explored_nodes st @ [cur])))
                 (min (int (length (explored_nodes st @ [cur])) + 100) m)\<rparr>))"
        using False True
        by (simp add: a_star_step_def Cons Let_def case_prod_beta least_def cur_def)
      moreover have "goal \<in> insert start (grid_cells - blocks E)"
        using cur_in f(3) True by blast
      ultimately show ?thesis by simp
    next
      case ng: False
      define nbs where "nbs = fst (get_neighbors E (cache st) cur)"
      define st5 where "st5 =
        st\<lparr>open_set := remove1 (pq_min x xs) (x # xs),
            closed_set := insert cur (closed_set st),
            explored_nodes := explored_nodes st @ [cur],
            progress := ProgressBar_update (int (length (explored_nodes st @ [cur])))
               (min (int (length (explored_nodes st @ [cur])) + 100) m),
            visualization_counter := visualization_counter st + 1,
            cache := snd (get_neighbors E (cache st) cur)\<rparr>"
      have unfold: "a_star_step E goal fb sb m st =
          (case foldl (relax_neighbor E goal fb sb cur) (Inr st5) nbs of
             Inl e \<Rightarrow> Inl (Raised e) | Inr s \<Rightarrow> Inr s)"
        unfolding st5_def nbs_def
        by (rule a_star_step_expand [OF Cons _ False ng]) (simp add: cur_def least_def)
      have o5: "open_cells st5 = open_cells st1"
        by (simp add: st5_def st1_def open_cells_def least_def)
      have cs5: "closed_set st5 = insert cur (closed_set st)" by (simp add: st5_def)
      have g5: "dom (g_score st5) = dom (g_score st)" by (simp add: st5_def)
      have d5: "dom (g_score st5) = closed_set st5 \<union> open_cells st5"
        unfolding g5 cs5 o5 by (rule frontier_aux2 [OF f(2) oc1 oc2 cur_in])
      have c5: "cur \<in> closed_set st5" by (simp add: st5_def)
      from foldl_relax_frontier [OF d5 c5, of E goal fb sb nbs]
      obtain st' where s: "foldl (relax_neighbor E goal fb sb cur) (Inr st5) nbs = Inr st'"
        "closed_set st' = closed_set st5" "dom (g_score st') = closed_set st' \<union> open_cells st'"
        "dom (g_score st') = dom (g_score st5) \<union> fst ` set nbs"
        "depth_cache (cache st') = depth_cache (cache st5)" by blast
      have cl: "closed_set st' = insert cur (closed_set st)" using s(2) cs5 by simp
      have nbs_ok: "fst ` set nbs \<subseteq> grid_cells - blocks E"
        using get_neighbors_in_grid [of E "cache st" cur]
          get_neighbors_candidates [of E "cache st" cur]
        unfolding nbs_def by blast
      have "frontier_inv E start st'"
      proof (rule frontier_invI)
        show "start \<in> dom (g_score st')" using f(1) s(4) g5 by simp
        show "dom (g_score st') = closed_set st' \<union> open_cells st'" by (rule s(3))
        have "closed_set st' \<union> open_cells st' = dom (g_score st) \<union> fst ` set nbs"
          using s(3,4) g5 by simp
        then show "closed_set st' \<union> open_cells st' \<subseteq> insert start (grid_cells - blocks E)"
          by (rule frontier_aux4 [OF _ f(2) f(3) nbs_ok]) blast
        show "shift c d \<in> dom (g_score st')"
          if c: "c \<in> closed_set st'" and d: "d \<in> set directions"
            and n: "shift c d \<in> grid_cells - blocks E" for c d
        proof (cases "c = cur")
          case True
          have "shift cur d \<in> fst ` set nbs"
            unfolding nbs_def using get_neighbors_clear(2) [OF assms(1) f(5) d] n True by simp
          then show ?thesis using s(4) True by simp
        next
          case False
          then have "c \<in> closed_set st" using c cl by simp
          from f(4) [OF this d n] show ?thesis using s(4) g5 by simp
        qed
        have "depth_ok (cache st5)"
          using get_neighbors_clear(1) [OF assms(1) f(5), of cur] by (simp add: st5_def)
        then show "depth_ok (cache st')" using s(5) by (simp add: depth_ok_def)
      qed
      then show ?thesis using unfold s(1) by simp
    qed
  qed
qed

lemma a_star_loop_frontier:
  assumes "clear_water E" and "frontier_inv E start st"
  shows "case a_star_loop E goal fb sb m st of
           Open_set_empty st' \<Rightarrow> frontier_inv E start st' \<and> open_set st' = []
         | Goal_popped st' \<Rightarrow> goal \<in> insert start (grid_cells - blocks E)
         | Raised e \<Rightarrow> True"
  using assms
proof (induction E goal fb sb m st rule: a_star_loop.induct)
  case (1 E goal fb sb m st)
  note step = a_star_step_frontier [OF "1.prems", of goal fb sb m]
  show ?case
  proof (cases "a_star_step E goal fb sb m st")
    case (Inl r)
    then have "a_star_loop E goal fb sb m st = r" by (rule a_star_loop_stop)
    then show ?thesis using step Inl "1.prems"(2) by (cases r) auto
  next
    case (Inr st')
    then have e: "a_star_loop E goal fb sb m st = a_star_loop E goal fb sb m st'"
      by (rule a_star_loop_next)
    have "frontier_inv E start st'" using step Inr by simp
    then show ?thesis using "1.IH" [OF Inr "1.prems"(1)] e by simp
  qed
qed

lemma max_xy: "max_x = 137" "max_y = 150"
  by (simp_all add: max_x_def max_y_def GRID_WIDTH_def GRID_HEIGHT_def GRID_SIZE_def)

lemma clear_water_blocked_corner: "clear_water blocked_corner"
  by (simp add: clear_water_def blocked_corner_def open_sea_def is_black_pixel_def grid_cells_def
      max_xy GRID_SIZE_def MAP_POSITION_def BLACK_def Let_def)

lemma depth_ok_no_caches: "depth_ok no_caches"
  by (simp add: depth_ok_def no_caches_def)

lemma flood:
  assumes origin: "(0, 0) \<in> S"
    and step: "\<And>c d. c \<in> S \<Longrightarrow> d \<in> set directions \<Longrightarrow>
                 shift c d \<in> grid_cells - {(136, 149)} \<Longrightarrow> shift c d \<in> S"
  shows "grid_cells - {(136, 149)} \<subseteq> S"
proof -
  have row: "(int n, 0) \<in> S" if "n < 137" for n
    using that
  proof (induction n)
    case 0
    then show ?case using origin by simp
  next
    case (Suc n)
    then have p: "(int n, 0) \<in> S" by simp
    have "shift (int n, 0) (1, 0) \<in> S"
      by (rule step [OF p]) (use Suc.prems in \<open>simp_all add: directions_def shift_def grid_cells_def max_xy\<close>)
    then show ?case by (simp add: shift_def add.commute)
  qed
  have col: "(int n, int k) \<in> S" if "n < 137" "k < 150" "(int n, int k) \<noteq> (136, 149)" for n k
    using that
  proof (induction k)
    case 0
    then show ?case using row by simp
  next
    case (Suc k)
    then have p: "(int n, int k) \<in> S" by simp
    have "shift (int n, int k) (0, 1) \<in> S"
      by (rule step [OF p]) (use Suc.prems in \<open>auto simp: directions_def shift_def grid_cells_def max_xy\<close>)
    then show ?case by (simp add: shift_def add.commute)
  qed
  show ?thesis
  proof
    fix c
    assume c: "c \<in> grid_cells - {(136, 149)}"
    obtain x y where xy: "c = (x, y)" by (cases c) auto
    then have b: "0 \<le> x" "x < 137" "0 \<le> y" "y < 150" "(x, y) \<noteq> (136, 149)"
      using c by (simp_all add: grid_cells_def max_xy)
    have "(int (nat x), int (nat y)) \<in> S"
      by (rule col) (use b in auto)
    then show "c \<in> S" using b xy by simp
  qed
qed

lemma card_grid_cells: "card grid_cells = 20550"
  by (simp add: grid_cells_def max_xy card_cartesian_product)

lemma long_run:
  "\<exists>explored st.
     a_star blocked_corner no_caches (0, 0) (136, 149) False False =
       Some (Inr ((None, explored), st)) \<and> 10000 < length explored"
proof -
  let ?E = blocked_corner
  let ?init = "initial_state no_caches (0, 0) (136, 149)"
  have f0: "frontier_inv ?E (0, 0) ?init"
    by (rule frontier_inv_initial [OF depth_ok_no_caches])
  have b: "blocks ?E = {(136, 149)}" by (simp add: blocked_corner_def)
  note fl = a_star_loop_frontier [OF clear_water_blocked_corner f0, of "(136, 149)" False False 10000]
  note sl = a_star_loop_inv [OF search_inv_initial, of "(136, 149)" no_caches "(0, 0)" "(136, 149)"
      blocked_corner False False 10000]
  show ?thesis
  proof (cases "a_star_loop ?E (136, 149) False False 10000 ?init")
    case (Open_set_empty st)
    then have fr: "frontier_inv ?E (0, 0) st" and em: "open_set st = []" using fl by simp_all
    have si: "search_inv st" using sl Open_set_empty by (simp add: initial_state_def)
    note f = frontier_invD [OF fr]
    have dom: "dom (g_score st) = closed_set st" using f(2) em by (simp add: open_cells_def)
    have "grid_cells - {(136, 149)} \<subseteq> closed_set st"
    proof (rule flood)
      show "(0, 0) \<in> closed_set st" using f(1) dom by simp
      show "shift c d \<in> closed_set st"
        if "c \<in> closed_set st" "d \<in> set directions" "shift c d \<in> grid_cells - {(136, 149)}" for c d
        using f(4) [of c d] that dom b by simp
    qed
    then have "card (grid_cells - {(136, 149)}) \<le> card (closed_set st)"
      using search_invD(2) [OF si] by (intro card_mono) simp_all
    moreover have "card (grid_cells - {(136, 149)}) = 20549"
      using card_grid_cells by (simp add: grid_cells_def max_xy)
    moreover have "card (closed_set st) \<le> length (explored_nodes st)"
      using search_invD(2) [OF si] by (simp add: card_length)
    ultimately have "10000 < length (explored_nodes st)" by simp
    then show ?thesis using Open_set_empty by (simp add: a_star_def a_star_with_def)
  next
    case (Goal_popped st)
    then have "(136, 149) \<in> insert (0, 0) (grid_cells - blocks ?E)" using fl by simp
    then show ?thesis using b by simp
  next
    case (Raised e)
    then show ?thesis using sl by (simp add: initial_state_def)
  qed
qed

text \<open>
  Claim C5: whatever the value of the ceiling \<open>max_nodes\<close>, \<^verbatim>\<open>a_star\<close> returns what it
  returns with the ceiling 10000 of the source, and it returns either with no path once
  the open set is exhausted and the goal was never closed, or with a path once the goal
  is the cell closed last: the number of explored cells ends no search. With the last cell
  of the grid blocked and chosen as the goal, the search from \<open>(0, 0)\<close> closes more than
  10000 cells before it returns that there is no path.
\<close>

theorem max_nodes_never_caps_exploration:
  "map_option (map_sum id fst) (a_star_with m E c start goal cargo passenger) =
     map_option (map_sum id fst) (a_star E c start goal cargo passenger) \<and>
   (\<exists>path explored st.
      a_star_with m E c start goal cargo passenger = Some (Inr ((path, explored), st)) \<and>
      ((path = None \<and> open_set st = [] \<and> goal \<notin> set explored) \<or>
       (path \<noteq> None \<and> explored \<noteq> [] \<and> last explored = goal))) \<and>
   (\<exists>explored st.
      a_star blocked_corner no_caches (0, 0) (136, 149) False False =
        Some (Inr ((None, explored), st)) \<and> 10000 < length explored)"
proof -
  have "map_option (map_sum id fst) (a_star_with m E c start goal cargo passenger) =
     map_option (map_sum id fst) (a_star E c start goal cargo passenger)"
    unfolding a_star_def by (rule a_star_with_max_nodes)
  moreover have "\<exists>path explored st.
      a_star_with m E c start goal cargo passenger = Some (Inr ((path, explored), st)) \<and>
      ((path = None \<and> open_set st = [] \<and> goal \<notin> set explored) \<or>
       (path \<noteq> None \<and> explored \<noteq> [] \<and> last explored = goal))"
    using a_star_with_returns [of m E c start goal cargo passenger] by blast
  ultimately show ?thesis using long_run by blast
qed

theorem max_nodes_never_caps_exploration_witness:
  "map_option (map_sum id fst) (a_star_with 1 channel no_caches (20, 100) (22, 100) False False)
     = Some (Inr (None, [(20, 100), (21, 100)])) \<and>
   map_option (map_sum id fst) (a_star channel no_caches (20, 100) (22, 100) False False)
     = Some (Inr (None, [(20, 100), (21, 100)])) \<and>
   (\<exists>explored st.
      a_star blocked_corner no_caches (0, 0) (136, 149) False False =
        Some (Inr ((None, explored), st)) \<and> 10000 < length explored)"
proof -
  obtain S where "a_star_with 1 channel no_caches (20, 100) (22, 100) False False =
      Some (Inr ((None, [(20, 100), (21, 100)]), S))"
    using channel_run [of 1] by blast
  then have "map_option (map_sum id fst)
      (a_star_with 1 channel no_caches (20, 100) (22, 100) False False)
        = Some (Inr (None, [(20, 100), (21, 100)]))" by simp
  then show ?thesis
    using max_nodes_never_caps_exploration
      [of 1 channel no_caches "(20, 100)" "(22, 100)" False False]
    by simp
qed

end
